theory Spec2Isabelle
  imports Complex_Main
begin

section \<open>Costs: Python numbers together with \<open>float("inf")\<close>\<close>

text \<open>
  The cells of the table \<open>opt\<close> hold either a Python integer (a sum of forward and
  backward times) or \<open>float("inf")\<close>. Adding anything to \<open>float("inf")\<close> gives
  \<open>float("inf")\<close>, and every integer compares below it.
\<close>

datatype cost = Fin int | Infty

instantiation cost :: "{plus, linorder}"
begin

fun plus_cost :: "cost \<Rightarrow> cost \<Rightarrow> cost" where
  "plus_cost (Fin a) (Fin b) = Fin (a + b)"
| "plus_cost _ _ = Infty"

fun less_eq_cost :: "cost \<Rightarrow> cost \<Rightarrow> bool" where
  "less_eq_cost _ Infty = True"
| "less_eq_cost Infty (Fin b) = False"
| "less_eq_cost (Fin a) (Fin b) = (a \<le> b)"

definition less_cost :: "cost \<Rightarrow> cost \<Rightarrow> bool" where
  "less_cost x y = (x \<le> y \<and> \<not> y \<le> x)"

instance
proof
  fix x y z :: cost
  show "(x < y) = (x \<le> y \<and> \<not> y \<le> x)" by (simp add: less_cost_def)
  show "x \<le> x" by (cases x) auto
  show "x \<le> y \<Longrightarrow> y \<le> z \<Longrightarrow> x \<le> z" by (cases x; cases y; cases z) auto
  show "x \<le> y \<Longrightarrow> y \<le> x \<Longrightarrow> x = y" by (cases x; cases y) auto
  show "x \<le> y \<or> y \<le> x" by (cases x; cases y) auto
qed

end

instance cost :: ordered_ab_semigroup_add
proof
  fix a b c :: cost
  show "a + b + c = a + (b + c)" by (cases a; cases b; cases c) auto
  show "a + b = b + a" by (cases a; cases b) auto
  show "a \<le> b \<Longrightarrow> c + a \<le> c + b" by (cases a; cases b; cases c) auto
qed

section \<open>The chain\<close>

text \<open>
  Modelled from the spec: the class \<open>Chain\<close> (module \<open>utils\<close>) is built by
  \<open>_construct_chain\<close> as \<open>Chain(fwd_time, bwd_time, x_sizes, xbar_sizes, tmp_fwd, tmp_bwd)\<close>
  and read through the attributes \<open>fweight\<close>, \<open>bweight\<close>, \<open>cweight\<close>, \<open>cbweight\<close>,
  \<open>fwd_tmp\<close>, \<open>bwd_tmp\<close> and \<open>length\<close>. The chain has \<open>L\<close> stages; \<open>fweight\<close> and
  \<open>fwd_tmp\<close> have \<open>L\<close> entries, the other four lists have \<open>L + 1\<close> (the terminal
  entry included), and the sizes are non-negative integers.
\<close>

record chain =
  fweight :: "int list"
  bweight :: "int list"
  cweight :: "int list"
  cbweight :: "int list"
  fwd_tmp :: "int list"
  bwd_tmp :: "int list"

definition chain_length :: "chain \<Rightarrow> nat" where
  "chain_length c = length (fweight c)"

definition chain_wf :: "chain \<Rightarrow> bool" where
  "chain_wf c \<longleftrightarrow>
     length (bweight c) = chain_length c + 1 \<and>
     length (cweight c) = chain_length c + 1 \<and>
     length (cbweight c) = chain_length c + 1 \<and>
     length (fwd_tmp c) = chain_length c \<and>
     length (bwd_tmp c) = chain_length c + 1 \<and>
     list_all (\<lambda>x. 0 \<le> x) (cweight c) \<and>
     list_all (\<lambda>x. 0 \<le> x) (cbweight c)"

text \<open>The local lists of \<open>_compute_table\<close>: most are the chain's lists with \<open>[0]\<close> appended.\<close>

definition fw :: "chain \<Rightarrow> int list" where
  "fw c = fweight c @ [0]"

definition bw :: "chain \<Rightarrow> int list" where
  "bw c = bweight c"

definition cw :: "chain \<Rightarrow> int list" where
  "cw c = cweight c @ [0]"

definition cbw :: "chain \<Rightarrow> int list" where
  "cbw c = cbweight c @ [0]"

definition ftmp :: "chain \<Rightarrow> int list" where
  "ftmp c = fwd_tmp c @ [0]"

definition btmp :: "chain \<Rightarrow> int list" where
  "btmp c = bwd_tmp c @ [0]"

section \<open>The tables\<close>

text \<open>
  \<open>opt[m][i][j]\<close> and \<open>what[m][i][j]\<close> are lists (over \<open>m\<close>) of lists (over \<open>i\<close>) of
  dictionaries (over \<open>j\<close>). A table is a partial map on the triples \<open>(m, i, j)\<close>; a triple
  outside the lists or absent from the dictionary has no entry, and reading it raises
  \<open>IndexError\<close> or \<open>KeyError\<close>, both of which are a \<open>LookupError\<close>.
\<close>

datatype decision = ChainCkpt | LeafCkpt nat

datatype error =
    NegativeMemory int
  | Infeasible nat nat int
  | LookupError
  | ZeroDivisionError

type_synonym opt_table = "int \<times> nat \<times> nat \<Rightarrow> cost option"
type_synonym what_table = "int \<times> nat \<times> nat \<Rightarrow> decision option"

definition rd :: "('k \<Rightarrow> 'v option) \<Rightarrow> 'k \<Rightarrow> error + 'v" where
  "rd t k = (case t k of None \<Rightarrow> Inl LookupError | Some v \<Rightarrow> Inr v)"

fun sequence_err :: "(error + 'a) list \<Rightarrow> error + 'a list" where
  "sequence_err [] = Inr []"
| "sequence_err (x # xs) =
     (case x of Inl e \<Rightarrow> Inl e
      | Inr v \<Rightarrow> (case sequence_err xs of Inl e \<Rightarrow> Inl e | Inr vs \<Rightarrow> Inr (v # vs)))"

fun foldM :: "('a \<Rightarrow> 's \<Rightarrow> error + 's) \<Rightarrow> 'a list \<Rightarrow> 's \<Rightarrow> error + 's" where
  "foldM f [] s = Inr s"
| "foldM f (x # xs) s = (case f x s of Inl e \<Rightarrow> Inl e | Inr s' \<Rightarrow> foldM f xs s')"

section \<open>\<open>_compute_table\<close>\<close>

subsection \<open>The border \<open>lmax - lmin = 0\<close>\<close>

definition limit :: "chain \<Rightarrow> nat \<Rightarrow> int" where
  "limit c i = max (cw c ! (i + 1) + cbw c ! (i + 1) + ftmp c ! i)
                   (cw c ! (i + 1) + cbw c ! (i + 1) + btmp c ! i)"

definition border :: "chain \<Rightarrow> int \<Rightarrow> nat \<Rightarrow> cost" where
  "border c m i = (if m \<ge> limit c i then Fin (fw c ! i + bw c ! i) else Infty)"

definition init_cell :: "chain \<Rightarrow> int \<Rightarrow> nat \<Rightarrow> opt_table \<Rightarrow> opt_table" where
  "init_cell c m i opt = opt((m, i, i) \<mapsto> border c m i)"

definition init_table :: "chain \<Rightarrow> int \<Rightarrow> opt_table" where
  "init_table c mmax =
     fold (\<lambda>m. fold (init_cell c m) [0..<chain_length c + 1]) [0..mmax] Map.empty"

subsection \<open>One cell of the recurrence\<close>

text \<open>Python's \<open>max\<close> of a generator; it is only called on a non-empty range.\<close>

fun max_list :: "int list \<Rightarrow> int" where
  "max_list (x # xs) = fold max xs x"

definition mmin :: "chain \<Rightarrow> nat \<Rightarrow> nat \<Rightarrow> int" where
  "mmin c i idx =
     (let mm = cw c ! (idx + 1) + cw c ! (i + 1) + ftmp c ! i
      in if idx > i + 1
         then max mm (cw c ! (idx + 1) +
                max_list (map (\<lambda>j. cw c ! j + cw c ! (j + 1) + ftmp c ! j) [i + 1..<idx]))
         else mm)"

text \<open>\<open>sum(fw[i:j])\<close>: the slice is clamped to the list.\<close>

definition fw_sum :: "chain \<Rightarrow> nat \<Rightarrow> nat \<Rightarrow> int" where
  "fw_sum c i j = sum_list (take (j - i) (drop i (fw c)))"

definition leaf_entry :: "chain \<Rightarrow> opt_table \<Rightarrow> int \<Rightarrow> nat \<Rightarrow> nat \<Rightarrow> nat \<Rightarrow> error + (nat \<times> cost)" where
  "leaf_entry c opt m i idx j =
     (case rd opt (m - cw c ! j, j, idx) of Inl e \<Rightarrow> Inl e
      | Inr a \<Rightarrow> (case rd opt (m, i, j - 1) of Inl e \<Rightarrow> Inl e
          | Inr b \<Rightarrow> Inr (j, Fin (fw_sum c i j) + a + b)))"

definition leaf_checkpoints :: "chain \<Rightarrow> opt_table \<Rightarrow> int \<Rightarrow> nat \<Rightarrow> nat \<Rightarrow> error + (nat \<times> cost) list" where
  "leaf_checkpoints c opt m i idx =
     sequence_err (map (leaf_entry c opt m i idx) (filter (\<lambda>j. m \<ge> cw c ! j) [i + 1..<idx + 1]))"

text \<open>\<open>min(leaf_checkpoints, key=lambda t: t[1])\<close> keeps the first entry of minimal key.\<close>

fun best_leaf :: "(nat \<times> cost) list \<Rightarrow> (nat \<times> cost) option" where
  "best_leaf [] = None"
| "best_leaf (x # xs) = Some (fold (\<lambda>y b. if snd y < snd b then y else b) xs x)"

definition chain_checkpoint :: "chain \<Rightarrow> opt_table \<Rightarrow> int \<Rightarrow> nat \<Rightarrow> nat \<Rightarrow> error + cost" where
  "chain_checkpoint c opt m i idx =
     (if m \<ge> cbw c ! (i + 1)
      then (case rd opt (m, i, i) of Inl e \<Rightarrow> Inl e
            | Inr a \<Rightarrow> (case rd opt (m - cbw c ! (i + 1), i + 1, idx) of Inl e \<Rightarrow> Inl e
                | Inr b \<Rightarrow> Inr (a + b)))
      else Inr Infty)"

definition decide :: "(nat \<times> cost) option \<Rightarrow> cost \<Rightarrow> cost \<times> decision" where
  "decide best chain_cp =
     (case best of
        Some (k, v) \<Rightarrow> if v \<le> chain_cp then (v, LeafCkpt k) else (chain_cp, ChainCkpt)
      | None \<Rightarrow> (chain_cp, ChainCkpt))"

definition fill_cell :: "chain \<Rightarrow> int \<Rightarrow> nat \<Rightarrow> nat \<Rightarrow> opt_table \<times> what_table
    \<Rightarrow> error + opt_table \<times> what_table" where
  "fill_cell c m i idx T =
     (if m < mmin c i idx then Inr ((fst T)((m, i, idx) \<mapsto> Infty), snd T)
      else (case leaf_checkpoints c (fst T) m i idx of Inl e \<Rightarrow> Inl e
        | Inr leafs \<Rightarrow> (case chain_checkpoint c (fst T) m i idx of Inl e \<Rightarrow> Inl e
            | Inr chain_cp \<Rightarrow>
                Inr ((fst T)((m, i, idx) \<mapsto> fst (decide (best_leaf leafs) chain_cp)),
                     (snd T)((m, i, idx) \<mapsto> snd (decide (best_leaf leafs) chain_cp))))))"

subsection \<open>The three nested loops\<close>

definition compute_table :: "chain \<Rightarrow> int \<Rightarrow> error + opt_table \<times> what_table" where
  "compute_table c mmax =
     foldM (\<lambda>m. foldM (\<lambda>d. foldM (\<lambda>i. fill_cell c m i (i + d)) [0..<chain_length c + 1 - d])
                  [1..<chain_length c + 1])
       [0..mmax] (init_table c mmax, Map.empty)"

section \<open>\<open>_rec\<close>\<close>

text \<open>
  Modelled from the spec: the classes \<open>Sequence\<close> and \<open>Operation\<close> (module \<open>utils\<close>).
  A sequence is the ordered list of its atomic operations; \<open>insert\<close> appends one
  operation and \<open>insert_sequence\<close> appends the operations of another sequence.
\<close>

datatype operation =
    ForwardEnable nat
  | ForwardCheck nat
  | ForwardNograd nat
  | Backward nat
  | Loss

definition nth_err :: "'a list \<Rightarrow> nat \<Rightarrow> error + 'a" where
  "nth_err xs i = (if i < length xs then Inr (xs ! i) else Inl LookupError)"

text \<open>
  The recursion follows the table it is given, so on an arbitrary table it need not
  end: the result \<open>None\<close> stands for a call that never returns. An exception is the
  result \<open>Some (Inl e)\<close>. The indices \<open>lmin\<close> and \<open>lmax\<close> are natural numbers, and
  Python's bound on the depth of the recursion is left out.
\<close>

partial_function (option) rec :: "chain \<Rightarrow> nat \<Rightarrow> nat \<Rightarrow> int \<Rightarrow> opt_table \<times> what_table
    \<Rightarrow> (error + operation list) option" where
  "rec c lmin lmax cmem T =
     (if cmem \<le> 0 then Some (Inl (NegativeMemory cmem))
      else (case rd (fst T) (cmem, lmin, lmax) of Inl e \<Rightarrow> Some (Inl e)
        | Inr v \<Rightarrow>
            if v = Infty then Some (Inl (Infeasible lmin lmax cmem))
            else if lmin = lmax then
              (if lmin = chain_length c then Some (Inr [Loss])
               else Some (Inr [ForwardEnable lmin, Backward lmin]))
            else (case rd (snd T) (cmem, lmin, lmax) of Inl e \<Rightarrow> Some (Inl e)
              | Inr ChainCkpt \<Rightarrow>
                  (case nth_err (cbweight c) (lmin + 1) of Inl e \<Rightarrow> Some (Inl e)
                   | Inr x \<Rightarrow>
                       Option.bind (rec c (lmin + 1) lmax (cmem - x) T)
                         (\<lambda>r. case r of Inl e \<Rightarrow> Some (Inl e)
                            | Inr s \<Rightarrow> Some (Inr (ForwardEnable lmin # s @ [Backward lmin]))))
              | Inr (LeafCkpt j) \<Rightarrow>
                  (case nth_err (cweight c) j of Inl e \<Rightarrow> Some (Inl e)
                   | Inr x \<Rightarrow>
                       Option.bind (rec c j lmax (cmem - x) T)
                         (\<lambda>r1. case r1 of Inl e \<Rightarrow> Some (Inl e)
                            | Inr s1 \<Rightarrow>
                                if j = 0 then Some (Inl LookupError)
                                else Option.bind (rec c lmin (j - 1) cmem T)
                                  (\<lambda>r2. case r2 of Inl e \<Rightarrow> Some (Inl e)
                                     | Inr s2 \<Rightarrow>
                                         Some (Inr (ForwardCheck lmin #
                                           map ForwardNograd [lmin + 1..<j] @ s1 @ s2))))))))"

text \<open>
  The time of a sequence: \<open>fwd_time[i]\<close> for each forward operation on stage \<open>i\<close>,
  \<open>bwd_time[i]\<close> for each \<open>Backward(i)\<close>, and the terminal costs
  \<open>fwd_time[L] + bwd_time[L]\<close> for \<open>Loss\<close>.
\<close>

fun op_time :: "chain \<Rightarrow> operation \<Rightarrow> int" where
  "op_time c (ForwardEnable i) = fw c ! i"
| "op_time c (ForwardCheck i) = fw c ! i"
| "op_time c (ForwardNograd i) = fw c ! i"
| "op_time c (Backward i) = bw c ! i"
| "op_time c Loss = fw c ! chain_length c + bw c ! chain_length c"

definition seq_time :: "chain \<Rightarrow> operation list \<Rightarrow> int" where
  "seq_time c s = sum_list (map (op_time c) s)"

section \<open>The recurrence in closed form\<close>

text \<open>
  The value that the bottom-up pass stores in cell \<open>(m, i, j)\<close>, as a recursion on the
  width \<open>j - i\<close>: every cell the pass reads has a smaller width.
\<close>

function opt_val :: "chain \<Rightarrow> int \<Rightarrow> nat \<Rightarrow> nat \<Rightarrow> cost" where
  "opt_val c m i j =
     (if j \<le> i then border c m i
      else if m < mmin c i j then Infty
      else fst (decide
        (best_leaf (map (\<lambda>k. (k, Fin (fw_sum c i k) + opt_val c (m - cw c ! k) k j
                                   + opt_val c m i (k - 1)))
                      (filter (\<lambda>k. m \<ge> cw c ! k) [i + 1..<j + 1])))
        (if m \<ge> cbw c ! (i + 1)
         then opt_val c m i i + opt_val c (m - cbw c ! (i + 1)) (i + 1) j
         else Infty)))"
  by pat_completeness auto
termination
  by (relation "measure (\<lambda>(c, m, i, j). j - i)") (auto simp del: upt_Suc)

declare opt_val.simps [simp del]

definition leaf_vals :: "chain \<Rightarrow> int \<Rightarrow> nat \<Rightarrow> nat \<Rightarrow> (nat \<times> cost) list" where
  "leaf_vals c m i j =
     map (\<lambda>k. (k, Fin (fw_sum c i k) + opt_val c (m - cw c ! k) k j + opt_val c m i (k - 1)))
       (filter (\<lambda>k. m \<ge> cw c ! k) [i + 1..<j + 1])"

definition chain_val :: "chain \<Rightarrow> int \<Rightarrow> nat \<Rightarrow> nat \<Rightarrow> cost" where
  "chain_val c m i j =
     (if m \<ge> cbw c ! (i + 1)
      then opt_val c m i i + opt_val c (m - cbw c ! (i + 1)) (i + 1) j
      else Infty)"

definition what_val :: "chain \<Rightarrow> int \<Rightarrow> nat \<Rightarrow> nat \<Rightarrow> decision" where
  "what_val c m i j = snd (decide (best_leaf (leaf_vals c m i j)) (chain_val c m i j))"

text \<open>The tables while the pass is about to fill cell \<open>(m, i, i + d)\<close>.\<close>

definition filled :: "nat \<Rightarrow> int \<Rightarrow> int \<Rightarrow> nat \<Rightarrow> nat \<Rightarrow> int \<times> nat \<times> nat \<Rightarrow> bool" where
  "filled L mmax m d i k =
     (case k of (m', i', j') \<Rightarrow>
        0 \<le> m' \<and> m' \<le> mmax \<and> i' \<le> j' \<and> j' \<le> L \<and>
        (i' = j' \<or> m' < m \<or> (m' = m \<and> (j' - i' < d \<or> (j' - i' = d \<and> i' < i)))))"

definition opt_at :: "chain \<Rightarrow> int \<Rightarrow> int \<Rightarrow> nat \<Rightarrow> nat \<Rightarrow> opt_table" where
  "opt_at c mmax m d i k =
     (if filled (chain_length c) mmax m d i k
      then Some (opt_val c (fst k) (fst (snd k)) (snd (snd k))) else None)"

definition what_at :: "chain \<Rightarrow> int \<Rightarrow> int \<Rightarrow> nat \<Rightarrow> nat \<Rightarrow> what_table" where
  "what_at c mmax m d i k =
     (if filled (chain_length c) mmax m d i k \<and> fst (snd k) < snd (snd k)
         \<and> mmin c (fst (snd k)) (snd (snd k)) \<le> fst k
      then Some (what_val c (fst k) (fst (snd k)) (snd (snd k))) else None)"

text \<open>The finished tables.\<close>

definition opt_final :: "chain \<Rightarrow> int \<Rightarrow> opt_table" where
  "opt_final c mmax k =
     (case k of (m, i, j) \<Rightarrow>
        if 0 \<le> m \<and> m \<le> mmax \<and> i \<le> j \<and> j \<le> chain_length c
        then Some (opt_val c m i j) else None)"

definition what_final :: "chain \<Rightarrow> int \<Rightarrow> what_table" where
  "what_final c mmax k =
     (case k of (m, i, j) \<Rightarrow>
        if 0 \<le> m \<and> m \<le> mmax \<and> i < j \<and> j \<le> chain_length c \<and> mmin c i j \<le> m
        then Some (what_val c m i j) else None)"

section \<open>The floor as the specification words it\<close>

text \<open>
  The specification's reading of the feasibility floor, for comparison with \<open>mmin\<close>:
  \<open>x_size[j+1] + x_size[i+1] + tmp_fwd[i]\<close>, raised for \<open>d > 1\<close> to the maximum over the
  interior stages \<open>k\<close> of \<open>x_size[k] + x_size[k+1] + tmp_fwd[k]\<close>.
\<close>

definition mmin_spec :: "chain \<Rightarrow> nat \<Rightarrow> nat \<Rightarrow> int" where
  "mmin_spec c i j =
     (let mm = cw c ! (j + 1) + cw c ! (i + 1) + ftmp c ! i
      in if j > i + 1
         then max mm (max_list (map (\<lambda>k. cw c ! k + cw c ! (k + 1) + ftmp c ! k) [i + 1..<j]))
         else mm)"

section \<open>\<open>_discretize\<close>, \<open>_construct_chain\<close> and \<open>solver_rotor\<close>\<close>








section \<open>\<open>StrategiesConstructor.build_strategies_and_cost\<close>: which local names are bound\<close>

text \<open>
  The method is one Python function, so \<open>name\<close>, \<open>output_sharding_spec\<close> and
  \<open>new_input_sharding_spec\<close> are locals of one frame shared by all iterations of the
  loop over the nodes; reading a local that no statement has bound yet raises
  \<open>UnboundLocalError\<close>, a \<open>NameError\<close>. The model follows the frame through the branches.
  The handlers, the sharding-spec classes and the tables of operator kinds are outside
  this development: a node is given with the branch its operator selects, with whether
  its handler returns, and with the strategies of its predecessors.
\<close>

datatype py_exception =
    NameError | KeyError | IndexError | AssertionError | RuntimeError | HandlerError

datatype module_kind =
    ConvModule | LinearModule | ElementwiseModule | BatchNormModule | PoolModule | OtherModule

datatype func_kind =
    ConvFunc | LinearFunc | ReshapeFunc | ElementwiseFunc | BcastFunc | VarMean | GetItem
  | OtherFunc

datatype node_op =
    Placeholder | GetAttr | CallModule module_kind | CallFunction func_kind | Output
  | CallMethod

record strategy =
  spec_id :: nat
  is_sharding_spec :: bool
  dim_sharded :: bool

record node =
  op :: node_op
  has_dim_kwarg :: bool
  predecessors :: "strategy list list"
  handler_returns :: bool

record frame =
  name_bound :: bool
  output_sharding_spec_bound :: bool
  new_input_sharding_spec_bound :: bool

definition empty_frame :: frame where
  "empty_frame = \<lparr>name_bound = False, output_sharding_spec_bound = False,
                   new_input_sharding_spec_bound = False\<rparr>"

definition replica :: "bool \<Rightarrow> frame \<Rightarrow> py_exception + frame" where
  "replica fast fr =
     Inr (if fast then fr\<lparr>name_bound := True, output_sharding_spec_bound := True\<rparr> else fr)"

definition handler :: "node \<Rightarrow> frame \<Rightarrow> py_exception + frame" where
  "handler n fr = (if handler_returns n then Inr fr else Inl HandlerError)"

fun elementwise_loop :: "strategy list \<Rightarrow> nat list \<Rightarrow> frame \<Rightarrow> py_exception + frame" where
  "elementwise_loop [] checklist fr = Inr fr"
| "elementwise_loop (s # ss) checklist fr =
     (if \<not> is_sharding_spec s then Inl AssertionError
      else if spec_id s \<in> set checklist then elementwise_loop ss checklist fr
      else elementwise_loop ss (checklist @ [spec_id s])
             (fr\<lparr>output_sharding_spec_bound := True, name_bound := True\<rparr>))"

definition elementwise :: "node \<Rightarrow> frame \<Rightarrow> py_exception + frame" where
  "elementwise n fr =
     (if length (predecessors n) \<noteq> 1 then Inl AssertionError
      else elementwise_loop (predecessors n ! 0) [] fr)"

fun var_mean_loop :: "strategy list \<Rightarrow> frame \<Rightarrow> py_exception + frame" where
  "var_mean_loop [] fr = Inr fr"
| "var_mean_loop (s # ss) fr =
     (if \<not> is_sharding_spec s then Inl AssertionError
      else if \<not> new_input_sharding_spec_bound fr then Inl NameError
      else if \<not> output_sharding_spec_bound fr then Inl NameError
      else var_mean_loop ss
             (if dim_sharded s
              then fr\<lparr>name_bound := True, new_input_sharding_spec_bound := True,
                      output_sharding_spec_bound := True\<rparr>
              else fr\<lparr>name_bound := True, output_sharding_spec_bound := True\<rparr>))"

definition var_mean :: "node \<Rightarrow> frame \<Rightarrow> py_exception + frame" where
  "var_mean n fr =
     (if \<not> has_dim_kwarg n then Inl KeyError
      else (case predecessors n of [] \<Rightarrow> Inl IndexError
            | strategies # _ \<Rightarrow> var_mean_loop strategies fr))"

fun getitem_loop :: "strategy list \<Rightarrow> frame \<Rightarrow> py_exception + frame" where
  "getitem_loop [] fr = Inr fr"
| "getitem_loop (s # ss) fr =
     (if \<not> is_sharding_spec s then Inl AssertionError
      else if \<not> name_bound fr then Inl NameError
      else getitem_loop ss (fr\<lparr>output_sharding_spec_bound := True\<rparr>))"

definition getitem :: "node \<Rightarrow> frame \<Rightarrow> py_exception + frame" where
  "getitem n fr =
     (case predecessors n of [] \<Rightarrow> Inl IndexError
      | strategies # _ \<Rightarrow> getitem_loop strategies fr)"

fun call_module :: "module_kind \<Rightarrow> node \<Rightarrow> frame \<Rightarrow> py_exception + frame" where
  "call_module ConvModule n fr = handler n fr"
| "call_module LinearModule n fr = handler n fr"
| "call_module ElementwiseModule n fr = elementwise n fr"
| "call_module BatchNormModule n fr = handler n fr"
| "call_module PoolModule n fr = elementwise n fr"
| "call_module OtherModule n fr = Inl RuntimeError"

fun call_function :: "func_kind \<Rightarrow> node \<Rightarrow> frame \<Rightarrow> py_exception + frame" where
  "call_function ConvFunc n fr = handler n fr"
| "call_function LinearFunc n fr = handler n fr"
| "call_function ReshapeFunc n fr = handler n fr"
| "call_function ElementwiseFunc n fr = elementwise n fr"
| "call_function BcastFunc n fr =
     (if length (predecessors n) = 1 then elementwise n fr else handler n fr)"
| "call_function VarMean n fr = var_mean n fr"
| "call_function GetItem n fr = getitem n fr"
| "call_function OtherFunc n fr = Inl RuntimeError"

fun process_node :: "bool \<Rightarrow> node \<Rightarrow> frame \<Rightarrow> py_exception + frame" where
  "process_node fast n fr =
     (case op n of
        Placeholder \<Rightarrow> replica fast fr
      | GetAttr \<Rightarrow> replica fast fr
      | CallModule k \<Rightarrow> call_module k n fr
      | CallFunction k \<Rightarrow> call_function k n fr
      | Output \<Rightarrow> replica fast fr
      | CallMethod \<Rightarrow> Inr fr)"

fun build_loop :: "bool \<Rightarrow> node list \<Rightarrow> frame \<Rightarrow> py_exception + frame" where
  "build_loop fast [] fr = Inr fr"
| "build_loop fast (n # ns) fr =
     (case process_node fast n fr of Inl e \<Rightarrow> Inl e | Inr fr' \<Rightarrow> build_loop fast ns fr')"

definition build_strategies_and_cost :: "bool \<Rightarrow> node list \<Rightarrow> py_exception + frame" where
  "build_strategies_and_cost fast nodes = build_loop fast nodes empty_frame"

declare rec.simps [code]

text \<open>What a reconstruction may end with: a sequence of the given time, or the error for a
  memory of exactly zero.\<close>

definition rec_ok :: "chain \<Rightarrow> int \<Rightarrow> (error + operation list) \<Rightarrow> bool" where
  "rec_ok c t r = (case r of Inr s \<Rightarrow> seq_time c s = t | Inl e \<Rightarrow> e = NegativeMemory 0)"

text \<open>Every stage has an activation and a checkpoint of at least one memory unit, and no
  temporary size is negative.\<close>

definition sizes_positive :: "chain \<Rightarrow> bool" where
  "sizes_positive c \<longleftrightarrow>
     list_all (\<lambda>k. 1 \<le> cw c ! k \<and> 1 \<le> cbw c ! k) [1..<chain_length c + 1] \<and>
     list_all (\<lambda>i. 0 \<le> ftmp c ! i \<and> 0 \<le> btmp c ! i) [0..<chain_length c + 1]"

section \<open>Example chains\<close>

definition chain3 :: chain where
  "chain3 = \<lparr>fweight = [2, 2, 1], bweight = [1, 1, 1, 0], cweight = [1, 1, 1, 1],
             cbweight = [1, 2, 2, 1], fwd_tmp = [0, 0, 0], bwd_tmp = [0, 0, 0, 0]\<rparr>"


definition chain_unit :: chain where
  "chain_unit = \<lparr>fweight = [1, 1, 1], bweight = [1, 1, 1, 0], cweight = [0, 1, 1, 1],
     cbweight = [0, 0, 0, 0], fwd_tmp = [0, 0, 0], bwd_tmp = [0, 0, 0, 0]\<rparr>"

definition chain_one :: chain where
  "chain_one = \<lparr>fweight = [5], bweight = [3, 0], cweight = [1, 1], cbweight = [1, 1],
         fwd_tmp = [0], bwd_tmp = [0, 0]\<rparr>"

definition chain_tight :: chain where
  "chain_tight = \<lparr>fweight = [5], bweight = [3, 0], cweight = [0, 0], cbweight = [0, 2],
         fwd_tmp = [0], bwd_tmp = [0, 0]\<rparr>"

section \<open>Example inputs of \<open>solver_rotor\<close> and of the strategies constructor\<close>


definition strategy0 :: strategy where
  "strategy0 = \<lparr>spec_id = 0, is_sharding_spec = True, dim_sharded = True\<rparr>"

definition placeholder_node :: node where
  "placeholder_node = \<lparr>op = Placeholder, has_dim_kwarg = False, predecessors = [],
     handler_returns = True\<rparr>"

definition var_mean_node :: node where
  "var_mean_node = \<lparr>op = CallFunction VarMean, has_dim_kwarg = True,
     predecessors = [[strategy0]], handler_returns = True\<rparr>"

definition var_mean_positional :: node where
  "var_mean_positional = \<lparr>op = CallFunction VarMean, has_dim_kwarg = False,
     predecessors = [[strategy0]], handler_returns = True\<rparr>"

section \<open>The pass fills the table with the recurrence\<close>

lemma sequence_err_map:
  "(\<And>x. x \<in> set xs \<Longrightarrow> f x = Inr (g x)) \<Longrightarrow> sequence_err (map f xs) = Inr (map g xs)"
  by (induction xs) auto

lemma foldM_append:
  "foldM f (xs @ ys) s = (case foldM f xs s of Inl e \<Rightarrow> Inl e | Inr s' \<Rightarrow> foldM f ys s')"
  by (induction xs arbitrary: s) (auto split: sum.splits)

lemma foldM_upt:
  assumes "\<And>i. a \<le> i \<Longrightarrow> i < b \<Longrightarrow> f i (S i) = Inr (S (Suc i))" and "a \<le> b"
  shows "foldM f [a..<b] (S a) = Inr (S b)"
  using assms
proof (induction b)
  case 0
  then show ?case by simp
next
  case (Suc b)
  show ?case
  proof (cases "a = Suc b")
    case True
    then show ?thesis by simp
  next
    case False
    with Suc.prems have le: "a \<le> b" by simp
    have "foldM f [a..<b] (S a) = Inr (S b)"
      using Suc.IH Suc.prems(1) le by simp
    then show ?thesis using le Suc.prems(1)[of b] by (simp add: foldM_append)
  qed
qed

lemma foldM_upto:
  assumes "\<And>i. a \<le> i \<Longrightarrow> i \<le> b \<Longrightarrow> f i (S i) = Inr (S (i + 1))" and "a \<le> b + 1"
  shows "foldM f [a..b] (S a) = Inr (S (b + 1))"
  using assms
proof (induction "nat (b + 1 - a)" arbitrary: b)
  case 0
  then have "b + 1 = a" by simp
  then show ?case by simp
next
  case (Suc n)
  then have le: "a \<le> b" by linarith
  have n: "n = nat ((b - 1) + 1 - a)" using Suc.hyps(2) by linarith
  have "foldM f [a..b - 1] (S a) = Inr (S (b - 1 + 1))"
    using Suc.hyps(1)[OF n] Suc.prems(1) le by simp
  then show ?case using le Suc.prems(1)[of b] by (simp add: upto_rec2 foldM_append)
qed

lemma fold_upto_snoc: "a \<le> b \<Longrightarrow> fold f [a..b] s = f b (fold f [a..b - 1] s)"
  by (simp add: upto_rec2)

lemma cw_nonneg: "chain_wf c \<Longrightarrow> 0 \<le> cw c ! k"
  if "k \<le> chain_length c + 1"
  using that by (auto simp: chain_wf_def cw_def nth_append list_all_length)

lemma cbw_nonneg: "chain_wf c \<Longrightarrow> k \<le> chain_length c + 1 \<Longrightarrow> 0 \<le> cbw c ! k"
  by (auto simp: chain_wf_def cbw_def nth_append list_all_length)

lemma init_inner:
  "fold (init_cell c m) [0..<n] t =
     (\<lambda>k. if \<exists>i<n. k = (m, i, i) then Some (border c m (fst (snd k))) else t k)"
proof (induction n)
  case 0
  then show ?case by simp
next
  case (Suc n)
  have "fold (init_cell c m) [0..<Suc n] t = init_cell c m n (fold (init_cell c m) [0..<n] t)"
    by simp
  also have "\<dots> = (\<lambda>k. if \<exists>i<Suc n. k = (m, i, i) then Some (border c m (fst (snd k))) else t k)"
    unfolding Suc by (rule ext) (auto simp: init_cell_def less_Suc_eq)
  finally show ?case .
qed

lemma init_outer:
  "a \<le> b + 1 \<Longrightarrow> fold (\<lambda>m. fold (init_cell c m) [0..<n]) [a..b] t =
     (\<lambda>k. if a \<le> fst k \<and> fst k \<le> b \<and> fst (snd k) = snd (snd k) \<and> fst (snd k) < n
          then Some (border c (fst k) (fst (snd k))) else t k)"
proof (induction "nat (b + 1 - a)" arbitrary: b)
  case 0
  then have "b + 1 = a" by simp
  then show ?case by (auto simp: fun_eq_iff)
next
  case (Suc x)
  then have le: "a \<le> b" by linarith
  have n: "x = nat ((b - 1) + 1 - a)" using Suc.hyps(2) by linarith
  have IH: "fold (\<lambda>m. fold (init_cell c m) [0..<n]) [a..b - 1] t =
     (\<lambda>k. if a \<le> fst k \<and> fst k \<le> b - 1 \<and> fst (snd k) = snd (snd k) \<and> fst (snd k) < n
          then Some (border c (fst k) (fst (snd k))) else t k)"
    using Suc.hyps(1)[OF n] le by simp
  show ?case
    unfolding fold_upto_snoc[OF le] IH init_inner
    using le by (auto simp: fun_eq_iff)
qed

lemma init_table_eq: "init_table c mmax = opt_at c mmax 0 1 0"
proof (cases "0 \<le> mmax + 1")
  case True
  show ?thesis
    unfolding init_table_def init_outer[OF True]
    by (rule ext) (auto simp: opt_at_def filled_def opt_val.simps)
next
  case False
  then have "[0..mmax] = []" by simp
  then show ?thesis
    using False by (auto simp: init_table_def opt_at_def filled_def)
qed

lemma what_empty_eq: "Map.empty = what_at c mmax 0 1 0"
  by (rule ext) (auto simp: what_at_def filled_def)

lemma opt_val_diag: "opt_val c m i i = border c m i"
  by (simp add: opt_val.simps)

lemma opt_val_range:
  "i < j \<Longrightarrow> opt_val c m i j =
     (if m < mmin c i j then Infty
      else fst (decide (best_leaf (leaf_vals c m i j)) (chain_val c m i j)))"
  by (subst opt_val.simps) (simp add: leaf_vals_def chain_val_def)

lemma rd_opt_at:
  "filled (chain_length c) mmax m d i (m', i', j') \<Longrightarrow>
     rd (opt_at c mmax m d i) (m', i', j') = Inr (opt_val c m' i' j')"
  by (simp add: rd_def opt_at_def)

lemma filled_step:
  assumes "0 \<le> m" "m \<le> mmax" "1 \<le> d" "i + d \<le> L"
  shows "filled L mmax m d (Suc i) k \<longleftrightarrow> filled L mmax m d i k \<or> k = (m, i, i + d)"
  using assms by (cases k) (auto simp: filled_def)

lemma leaf_checkpoints_at:
  assumes wf: "chain_wf c" and m: "0 \<le> m" "m \<le> mmax" and d: "1 \<le> d"
    and i: "i + d \<le> chain_length c"
  shows "leaf_checkpoints c (opt_at c mmax m d i) m i (i + d) = Inr (leaf_vals c m i (i + d))"
  unfolding leaf_checkpoints_def leaf_vals_def
proof (rule sequence_err_map)
  fix k assume "k \<in> set (filter (\<lambda>j. cw c ! j \<le> m) [i + 1..<i + d + 1])"
  then have k: "i < k" "k \<le> i + d" "cw c ! k \<le> m" by auto
  have nn: "0 \<le> cw c ! k" using cw_nonneg[OF _ wf, of k] k i by simp
  have f1: "filled (chain_length c) mmax m d i (m - cw c ! k, k, i + d)"
    using k nn m i by (auto simp: filled_def)
  have f2: "filled (chain_length c) mmax m d i (m, i, k - 1)"
    using k m i by (auto simp: filled_def)
  show "leaf_entry c (opt_at c mmax m d i) m i (i + d) k =
    Inr (k, Fin (fw_sum c i k) + opt_val c (m - cw c ! k) k (i + d) + opt_val c m i (k - 1))"
    using rd_opt_at[OF f1] rd_opt_at[OF f2] by (simp add: leaf_entry_def)
qed

lemma chain_checkpoint_at:
  assumes wf: "chain_wf c" and m: "0 \<le> m" "m \<le> mmax" and d: "1 \<le> d"
    and i: "i + d \<le> chain_length c"
  shows "chain_checkpoint c (opt_at c mmax m d i) m i (i + d) = Inr (chain_val c m i (i + d))"
proof (cases "cbw c ! (i + 1) \<le> m")
  case True
  have nn: "0 \<le> cbw c ! (i + 1)" using cbw_nonneg[OF wf, of "i + 1"] i d by simp
  have f1: "filled (chain_length c) mmax m d i (m, i, i)"
    using m i by (auto simp: filled_def)
  have f2: "filled (chain_length c) mmax m d i (m - cbw c ! (i + 1), i + 1, i + d)"
    using m i d nn True by (auto simp: filled_def)
  show ?thesis
    using True rd_opt_at[OF f1] rd_opt_at[OF f2] by (simp add: chain_checkpoint_def chain_val_def)
next
  case False
  then show ?thesis by (simp add: chain_checkpoint_def chain_val_def)
qed

lemma fill_cell_at:
  assumes wf: "chain_wf c" and m: "0 \<le> m" "m \<le> mmax" and d: "1 \<le> d"
    and i: "i + d \<le> chain_length c"
  shows "fill_cell c m i (i + d) (opt_at c mmax m d i, what_at c mmax m d i) =
           Inr (opt_at c mmax m d (Suc i), what_at c mmax m d (Suc i))"
proof -
  note st = filled_step[OF m d i]
  have id: "i < i + d" using d by simp
  have nf: "\<not> filled (chain_length c) mmax m d i (m, i, i + d)"
    using d by (auto simp: filled_def)
  have o: "(opt_at c mmax m d i)((m, i, i + d) \<mapsto> opt_val c m i (i + d)) = opt_at c mmax m d (Suc i)"
    by (rule ext) (auto simp: opt_at_def st)
  show ?thesis
  proof (cases "m < mmin c i (i + d)")
    case True
    have w: "what_at c mmax m d i = what_at c mmax m d (Suc i)"
      using True by (auto simp: what_at_def st fun_eq_iff)
    show ?thesis
      using True o w by (simp add: fill_cell_def opt_val_range[OF id])
  next
    case False
    have w: "(what_at c mmax m d i)((m, i, i + d) \<mapsto> what_val c m i (i + d)) = what_at c mmax m d (Suc i)"
      using False id by (auto simp: what_at_def st fun_eq_iff)
    show ?thesis
      using False o w
      by (simp add: fill_cell_def leaf_checkpoints_at[OF assms] chain_checkpoint_at[OF assms]
          opt_val_range[OF id] what_val_def)
  qed
qed

lemma filled_row_end:
  "d \<le> L \<Longrightarrow> filled L mmax m d (Suc L - d) k \<longleftrightarrow> filled L mmax m (Suc d) 0 k"
  by (cases k) (auto simp: filled_def)

lemma filled_mem_end:
  "filled L mmax m (Suc L) 0 k \<longleftrightarrow> filled L mmax (m + 1) (Suc 0) 0 k"
  by (cases k) (auto simp: filled_def)

lemma inner_loop:
  assumes wf: "chain_wf c" and m: "0 \<le> m" "m \<le> mmax" and d: "1 \<le> d" "d \<le> chain_length c"
  shows "foldM (\<lambda>i. fill_cell c m i (i + d)) [0..<chain_length c + 1 - d]
           (opt_at c mmax m d 0, what_at c mmax m d 0) =
         Inr (opt_at c mmax m (Suc d) 0, what_at c mmax m (Suc d) 0)"
proof -
  have "foldM (\<lambda>i. fill_cell c m i (i + d)) [0..<chain_length c + 1 - d]
           (opt_at c mmax m d 0, what_at c mmax m d 0) =
         Inr (opt_at c mmax m d (chain_length c + 1 - d), what_at c mmax m d (chain_length c + 1 - d))"
    by (rule foldM_upt[where S = "\<lambda>i. (opt_at c mmax m d i, what_at c mmax m d i)"])
       (simp_all add: fill_cell_at[OF wf m d(1)])
  moreover have "opt_at c mmax m d (chain_length c + 1 - d) = opt_at c mmax m (Suc d) 0"
    by (rule ext) (simp add: opt_at_def filled_row_end[OF d(2)])
  moreover have "what_at c mmax m d (chain_length c + 1 - d) = what_at c mmax m (Suc d) 0"
    by (rule ext) (simp add: what_at_def filled_row_end[OF d(2)])
  ultimately show ?thesis by simp
qed

lemma middle_loop:
  assumes wf: "chain_wf c" and m: "0 \<le> m" "m \<le> mmax"
  shows "foldM (\<lambda>d. foldM (\<lambda>i. fill_cell c m i (i + d)) [0..<chain_length c + 1 - d])
           [1..<chain_length c + 1] (opt_at c mmax m 1 0, what_at c mmax m 1 0) =
         Inr (opt_at c mmax (m + 1) 1 0, what_at c mmax (m + 1) 1 0)"
proof -
  have "foldM (\<lambda>d. foldM (\<lambda>i. fill_cell c m i (i + d)) [0..<chain_length c + 1 - d])
           [1..<chain_length c + 1] (opt_at c mmax m 1 0, what_at c mmax m 1 0) =
         Inr (opt_at c mmax m (chain_length c + 1) 0, what_at c mmax m (chain_length c + 1) 0)"
    by (rule foldM_upt[where S = "\<lambda>d. (opt_at c mmax m d 0, what_at c mmax m d 0)"])
       (use inner_loop[OF wf m] in \<open>simp_all del: upt_Suc\<close>)
  moreover have "opt_at c mmax m (chain_length c + 1) 0 = opt_at c mmax (m + 1) 1 0"
    by (rule ext) (simp add: opt_at_def filled_mem_end)
  moreover have "what_at c mmax m (chain_length c + 1) 0 = what_at c mmax (m + 1) 1 0"
    by (rule ext) (simp add: what_at_def filled_mem_end)
  ultimately show ?thesis by simp
qed

lemma opt_at_final: "opt_at c mmax (max 0 (mmax + 1)) 1 0 = opt_final c mmax"
  by (auto simp: fun_eq_iff opt_at_def opt_final_def filled_def max_def split: if_splits)

lemma what_at_final: "what_at c mmax (max 0 (mmax + 1)) 1 0 = what_final c mmax"
  by (auto simp: fun_eq_iff what_at_def what_final_def filled_def max_def split: if_splits)

lemma compute_table_eq:
  assumes wf: "chain_wf c"
  shows "compute_table c mmax = Inr (opt_final c mmax, what_final c mmax)"
proof (cases "0 \<le> mmax + 1")
  case True
  have "compute_table c mmax = Inr (opt_at c mmax (mmax + 1) 1 0, what_at c mmax (mmax + 1) 1 0)"
    unfolding compute_table_def init_table_eq what_empty_eq[of c mmax]
    by (rule foldM_upto[where S = "\<lambda>m. (opt_at c mmax m 1 0, what_at c mmax m 1 0)"])
       (use middle_loop[OF wf] True in \<open>simp_all del: upt_Suc\<close>)
  then show ?thesis
    using True opt_at_final[of c mmax] what_at_final[of c mmax] by (simp add: max_def)
next
  case False
  then have e: "[0..mmax] = []" by simp
  have "compute_table c mmax = Inr (opt_at c mmax 0 1 0, what_at c mmax 0 1 0)"
    unfolding compute_table_def init_table_eq what_empty_eq[of c mmax] e by simp
  then show ?thesis
    using False opt_at_final[of c mmax] what_at_final[of c mmax] by (simp add: max_def)
qed

section \<open>The best leaf and the choice\<close>

lemma fold_best_in:
  "fold (\<lambda>y b. if snd y < snd b then y else b) xs (x::nat \<times> cost) \<in> set (x # xs)"
  by (induction xs arbitrary: x) (auto split: if_splits)

lemma fold_best_le_init:
  "snd (fold (\<lambda>y b. if snd y < snd b then y else b) xs (x::nat \<times> cost)) \<le> snd x"
proof (induction xs arbitrary: x)
  case Nil
  then show ?case by simp
next
  case (Cons a xs)
  show ?case
  proof (cases "snd a < snd x")
    case True
    then show ?thesis using Cons[of a] by simp
  next
    case False
    then show ?thesis using Cons[of x] by simp
  qed
qed

lemma fold_best_le:
  "y \<in> set xs \<Longrightarrow> snd (fold (\<lambda>y b. if snd y < snd b then y else b) xs (x::nat \<times> cost)) \<le> snd y"
proof (induction xs arbitrary: x)
  case Nil
  then show ?case by simp
next
  case (Cons a xs)
  show ?case
  proof (cases "y = a")
    case True
    show ?thesis
    proof (cases "snd a < snd x")
      case True
      then show ?thesis using fold_best_le_init[of xs a] \<open>y = a\<close> by simp
    next
      case False
      then have "snd x \<le> snd a" by simp
      then show ?thesis using fold_best_le_init[of xs x] False \<open>y = a\<close> by simp
    qed
  next
    case False
    then have "y \<in> set xs" using Cons.prems by simp
    then show ?thesis using Cons.IH by (cases "snd a < snd x") simp_all
  qed
qed

lemma best_leaf_Some:
  assumes "best_leaf xs = Some b"
  shows "b \<in> set xs" and "\<And>y. y \<in> set xs \<Longrightarrow> snd b \<le> snd y"
proof -
  obtain x xs' where xs: "xs = x # xs'" using assms by (cases xs) auto
  then have b: "b = fold (\<lambda>y b. if snd y < snd b then y else b) xs' x" using assms by simp
  show "b \<in> set xs" unfolding b xs by (rule fold_best_in)
  fix y assume "y \<in> set xs"
  then show "snd b \<le> snd y"
    unfolding b xs using fold_best_le_init[of xs' x] fold_best_le[of y xs' x] by auto
qed

lemma best_leaf_None: "best_leaf xs = None \<longleftrightarrow> xs = []"
  by (cases xs) auto

lemma decide_le_chain: "fst (decide (best_leaf xs) ch) \<le> ch"
  by (auto simp: decide_def split: option.splits)

lemma decide_le_leaf:
  assumes "y \<in> set xs"
  shows "fst (decide (best_leaf xs) ch) \<le> snd y"
proof (cases "best_leaf xs")
  case None
  then show ?thesis using assms by (simp add: best_leaf_None)
next
  case (Some b)
  have "snd b \<le> snd y" using best_leaf_Some(2)[OF Some assms] .
  then show ?thesis using Some by (cases b) (auto simp: decide_def)
qed

lemma decide_cases:
  "fst (decide (best_leaf xs) ch) = ch \<or> (\<exists>y \<in> set xs. fst (decide (best_leaf xs) ch) = snd y)"
proof (cases "best_leaf xs")
  case None
  then show ?thesis by (simp add: decide_def)
next
  case (Some b)
  then show ?thesis
    using best_leaf_Some(1)[OF Some] by (cases b) (force simp: decide_def)
qed

lemma border_mono: "m1 \<le> m2 \<Longrightarrow> border c m2 i \<le> border c m1 i"
  by (simp add: border_def)

lemma leaf_vals_mem:
  "y \<in> set (leaf_vals c m i j) \<longleftrightarrow>
     (\<exists>k. i < k \<and> k \<le> j \<and> cw c ! k \<le> m \<and>
        y = (k, Fin (fw_sum c i k) + opt_val c (m - cw c ! k) k j + opt_val c m i (k - 1)))"
  by (auto simp: leaf_vals_def)

lemma opt_val_mono: "m1 \<le> m2 \<Longrightarrow> opt_val c m2 i j \<le> opt_val c m1 i j"
proof (induction "j - i" arbitrary: i j m1 m2 rule: less_induct)
  case less
  show ?case
  proof (cases "j \<le> i")
    case True
    then show ?thesis using less.prems by (simp add: opt_val.simps border_mono)
  next
    case False
    then have ij: "i < j" by simp
    show ?thesis
    proof (cases "m1 < mmin c i j")
      case True
      then show ?thesis by (simp add: opt_val_range[OF ij])
    next
      case m1: False
      then have m2: "\<not> m2 < mmin c i j" using less.prems by simp
      let ?D2 = "fst (decide (best_leaf (leaf_vals c m2 i j)) (chain_val c m2 i j))"
      let ?D1 = "fst (decide (best_leaf (leaf_vals c m1 i j)) (chain_val c m1 i j))"
      have ch: "chain_val c m2 i j \<le> chain_val c m1 i j"
      proof (cases "cbw c ! (i + 1) \<le> m1")
        case True
        have a: "opt_val c m2 i i \<le> opt_val c m1 i i"
          using less.hyps[of i i m1 m2] ij less.prems by simp
        have b: "opt_val c (m2 - cbw c ! (i + 1)) (i + 1) j \<le> opt_val c (m1 - cbw c ! (i + 1)) (i + 1) j"
          using less.hyps[of j "i + 1" "m1 - cbw c ! (i + 1)" "m2 - cbw c ! (i + 1)"] ij less.prems
          by simp
        show ?thesis using True less.prems add_mono[OF a b] by (simp add: chain_val_def)
      next
        case False
        then show ?thesis by (simp add: chain_val_def)
      qed
      have "?D2 \<le> ?D1"
        using decide_cases[of "leaf_vals c m1 i j" "chain_val c m1 i j"]
      proof
        assume "?D1 = chain_val c m1 i j"
        then show ?thesis
          using decide_le_chain[of "leaf_vals c m2 i j" "chain_val c m2 i j"] ch by simp
      next
        assume "\<exists>y \<in> set (leaf_vals c m1 i j). ?D1 = snd y"
        then obtain k where k: "i < k" "k \<le> j" "cw c ! k \<le> m1"
          and D1: "?D1 = Fin (fw_sum c i k) + opt_val c (m1 - cw c ! k) k j + opt_val c m1 i (k - 1)"
          by (auto simp: leaf_vals_mem)
        let ?y2 = "(k, Fin (fw_sum c i k) + opt_val c (m2 - cw c ! k) k j + opt_val c m2 i (k - 1))"
        have mem: "?y2 \<in> set (leaf_vals c m2 i j)"
          using k less.prems by (auto simp: leaf_vals_mem)
        have a: "opt_val c (m2 - cw c ! k) k j \<le> opt_val c (m1 - cw c ! k) k j"
          using less.hyps[of j k "m1 - cw c ! k" "m2 - cw c ! k"] k less.prems by simp
        have b: "opt_val c m2 i (k - 1) \<le> opt_val c m1 i (k - 1)"
          using less.hyps[of "k - 1" i m1 m2] k less.prems by simp
        have "snd ?y2 \<le> ?D1"
          unfolding D1 using add_mono[OF add_left_mono[OF a, of "Fin (fw_sum c i k)"] b] by simp
        then show ?thesis
          using decide_le_leaf[OF mem, of "chain_val c m2 i j"] by simp
      qed
      then show ?thesis using m1 m2 by (simp add: opt_val_range[OF ij])
    qed
  qed
qed

section \<open>The finished table\<close>

lemma rd_opt_final:
  "0 \<le> m \<Longrightarrow> m \<le> mmax \<Longrightarrow> i \<le> j \<Longrightarrow> j \<le> chain_length c \<Longrightarrow>
     rd (opt_final c mmax) (m, i, j) = Inr (opt_val c m i j)"
  by (simp add: rd_def opt_final_def)

lemma leaf_checkpoints_final:
  assumes wf: "chain_wf c" and m: "0 \<le> m" "m \<le> mmax" and ij: "i < j" "j \<le> chain_length c"
  shows "leaf_checkpoints c (opt_final c mmax) m i j = Inr (leaf_vals c m i j)"
  unfolding leaf_checkpoints_def leaf_vals_def
proof (rule sequence_err_map)
  fix k assume "k \<in> set (filter (\<lambda>j. cw c ! j \<le> m) [i + 1..<j + 1])"
  then have k: "i < k" "k \<le> j" "cw c ! k \<le> m" by auto
  have nn: "0 \<le> cw c ! k" using cw_nonneg[OF _ wf, of k] k ij by simp
  have r1: "rd (opt_final c mmax) (m - cw c ! k, k, j) = Inr (opt_val c (m - cw c ! k) k j)"
    using k nn m ij by (intro rd_opt_final) auto
  have r2: "rd (opt_final c mmax) (m, i, k - 1) = Inr (opt_val c m i (k - 1))"
    using k m ij by (intro rd_opt_final) auto
  show "leaf_entry c (opt_final c mmax) m i j k =
    Inr (k, Fin (fw_sum c i k) + opt_val c (m - cw c ! k) k j + opt_val c m i (k - 1))"
    using r1 r2 by (simp add: leaf_entry_def)
qed

lemma chain_checkpoint_final:
  assumes wf: "chain_wf c" and m: "0 \<le> m" "m \<le> mmax" and ij: "i < j" "j \<le> chain_length c"
  shows "chain_checkpoint c (opt_final c mmax) m i j = Inr (chain_val c m i j)"
proof (cases "cbw c ! (i + 1) \<le> m")
  case True
  have nn: "0 \<le> cbw c ! (i + 1)" using cbw_nonneg[OF wf, of "i + 1"] ij by simp
  have r1: "rd (opt_final c mmax) (m, i, i) = Inr (opt_val c m i i)"
    using m ij by (intro rd_opt_final) auto
  have r2: "rd (opt_final c mmax) (m - cbw c ! (i + 1), i + 1, j)
      = Inr (opt_val c (m - cbw c ! (i + 1)) (i + 1) j)"
    using m ij nn True by (intro rd_opt_final) auto
  show ?thesis
    using True r1 r2 by (simp add: chain_checkpoint_def chain_val_def)
next
  case False
  then show ?thesis by (simp add: chain_checkpoint_def chain_val_def)
qed

lemma fw_sum_eq:
  assumes "k \<le> length (fw c)"
  shows "fw_sum c i k = (\<Sum>t = i..<k. fw c ! t)"
proof -
  have "take (k - i) (drop i (fw c)) = map (\<lambda>t. fw c ! t) [i..<k]"
  proof (rule nth_equalityI)
    show "length (take (k - i) (drop i (fw c))) = length (map (\<lambda>t. fw c ! t) [i..<k])"
      using assms by simp
  next
    fix a assume "a < length (take (k - i) (drop i (fw c)))"
    then have a: "a < k - i" by simp
    then show "take (k - i) (drop i (fw c)) ! a = map (\<lambda>t. fw c ! t) [i..<k] ! a"
      using assms by simp
  qed
  then show ?thesis
    by (simp add: fw_sum_def interv_sum_list_conv_sum_set_nat)
qed

lemma max_list_Max: "xs \<noteq> [] \<Longrightarrow> max_list xs = Max (set xs)"
proof (cases xs)
  case Nil
  then show "xs \<noteq> [] \<Longrightarrow> ?thesis" by simp
next
  case (Cons x ys)
  have "fold max ys x = Max (set (x # ys))"
    by (rule Max.set_eq_fold[symmetric])
  then show ?thesis using Cons by simp
qed

text \<open>
  Claim C3. In the table of \<open>_compute_table\<close>, for a fixed range \<open>i \<le> j \<le> L\<close> and memory
  values \<open>0 \<le> m1 \<le> m2 \<le> mmax\<close>, both cells are filled and
  \<open>opt[m2][i][j] \<le> opt[m1][i][j]\<close>, with \<open>+\<infinity>\<close> above every finite value: the minimal
  time does not increase when the memory grows.
\<close>

theorem opt_nonincreasing_in_memory:
  assumes "chain_wf c" and "compute_table c mmax = Inr (opt, what)"
    and "i \<le> j" and "j \<le> chain_length c"
    and "0 \<le> m1" and "m1 \<le> m2" and "m2 \<le> mmax"
  shows "\<exists>v1 v2. opt (m1, i, j) = Some v1 \<and> opt (m2, i, j) = Some v2 \<and> v2 \<le> v1"
proof -
  have opt: "opt = opt_final c mmax"
    using assms(1,2) by (simp add: compute_table_eq)
  show ?thesis
    unfolding opt using assms(3-) opt_val_mono[of m1 m2 c i j] by (simp add: opt_final_def)
qed

text \<open>
  Claim C5. For a cell \<open>(m, i, j)\<close> with \<open>i < j\<close> and \<open>m\<close> at or above the feasibility
  floor, the leaf candidates are the boundaries \<open>k\<close> in \<open>(i, j]\<close> with \<open>m \<ge> x_size[k]\<close>, in
  increasing order; the value of candidate \<open>k\<close> is the sum of \<open>fwd_time\<close> over the stages
  \<open>i..k-1\<close>, plus \<open>opt[m - x_size[k]][k][j]\<close>, plus \<open>opt[m][i][k-1]\<close>; the best leaf is one of
  the candidates and its value is minimal among them; and the cell stores the outcome of
  comparing that best leaf with the chain option.
\<close>

theorem leaf_option_value_and_choice:
  assumes "chain_wf c" and "compute_table c mmax = Inr (opt, what)"
    and "i < j" and "j \<le> chain_length c"
    and "0 \<le> m" and "m \<le> mmax" and "mmin c i j \<le> m"
  shows "\<exists>leafs chain_cp.
           leaf_checkpoints c opt m i j = Inr leafs \<and>
           chain_checkpoint c opt m i j = Inr chain_cp \<and>
           map fst leafs = filter (\<lambda>k. cw c ! k \<le> m) [i + 1..<j + 1] \<and>
           (\<forall>(k, v) \<in> set leafs. \<exists>a b.
              opt (m - cw c ! k, k, j) = Some a \<and> opt (m, i, k - 1) = Some b \<and>
              v = Fin (\<Sum>t = i..<k. fw c ! t) + a + b) \<and>
           (leafs \<noteq> [] \<longrightarrow>
              (\<exists>best. best_leaf leafs = Some best \<and> best \<in> set leafs \<and>
                 (\<forall>y \<in> set leafs. snd best \<le> snd y))) \<and>
           opt (m, i, j) = Some (fst (decide (best_leaf leafs) chain_cp)) \<and>
           what (m, i, j) = Some (snd (decide (best_leaf leafs) chain_cp))"
proof -
  note wf = assms(1)
  have T: "opt = opt_final c mmax" "what = what_final c mmax"
    using assms(1,2) by (simp_all add: compute_table_eq)
  have lc: "leaf_checkpoints c opt m i j = Inr (leaf_vals c m i j)"
    unfolding T using assms by (intro leaf_checkpoints_final) auto
  have cc: "chain_checkpoint c opt m i j = Inr (chain_val c m i j)"
    unfolding T using assms by (intro chain_checkpoint_final) auto
  have keys: "map fst (leaf_vals c m i j) = filter (\<lambda>k. cw c ! k \<le> m) [i + 1..<j + 1]"
    by (simp add: leaf_vals_def comp_def)
  have vals: "\<forall>(k, v) \<in> set (leaf_vals c m i j). \<exists>a b.
              opt (m - cw c ! k, k, j) = Some a \<and> opt (m, i, k - 1) = Some b \<and>
              v = Fin (\<Sum>t = i..<k. fw c ! t) + a + b"
  proof (clarify)
    fix k v assume "(k, v) \<in> set (leaf_vals c m i j)"
    then have k: "i < k" "k \<le> j" "cw c ! k \<le> m"
      and v: "v = Fin (fw_sum c i k) + opt_val c (m - cw c ! k) k j + opt_val c m i (k - 1)"
      by (auto simp: leaf_vals_mem)
    have nn: "0 \<le> cw c ! k" using cw_nonneg[OF _ wf, of k] k assms(4) by simp
    have len: "k \<le> length (fw c)" using k assms(4) by (simp add: fw_def chain_length_def)
    have a: "opt (m - cw c ! k, k, j) = Some (opt_val c (m - cw c ! k) k j)"
      unfolding T using k nn assms by (auto simp: opt_final_def)
    have b: "opt (m, i, k - 1) = Some (opt_val c m i (k - 1))"
      unfolding T using k assms by (auto simp: opt_final_def)
    show "\<exists>a b. opt (m - cw c ! k, k, j) = Some a \<and> opt (m, i, k - 1) = Some b \<and>
              v = Fin (\<Sum>t = i..<k. fw c ! t) + a + b"
      using a b v fw_sum_eq[OF len, of i] by simp
  qed
  have best: "leaf_vals c m i j \<noteq> [] \<longrightarrow>
      (\<exists>best. best_leaf (leaf_vals c m i j) = Some best \<and> best \<in> set (leaf_vals c m i j) \<and>
         (\<forall>y \<in> set (leaf_vals c m i j). snd best \<le> snd y))"
  proof
    assume "leaf_vals c m i j \<noteq> []"
    then obtain b where b: "best_leaf (leaf_vals c m i j) = Some b"
      using best_leaf_None[of "leaf_vals c m i j"] by (cases "best_leaf (leaf_vals c m i j)") auto
    show "\<exists>best. best_leaf (leaf_vals c m i j) = Some best \<and> best \<in> set (leaf_vals c m i j) \<and>
         (\<forall>y \<in> set (leaf_vals c m i j). snd best \<le> snd y)"
      using b best_leaf_Some[OF b] by auto
  qed
  have o: "opt (m, i, j) = Some (fst (decide (best_leaf (leaf_vals c m i j)) (chain_val c m i j)))"
    unfolding T using assms by (simp add: opt_final_def opt_val_range)
  have w: "what (m, i, j) = Some (snd (decide (best_leaf (leaf_vals c m i j)) (chain_val c m i j)))"
    unfolding T using assms by (simp add: what_final_def what_val_def)
  show ?thesis
    using lc cc keys vals best o w by blast
qed


text \<open>
  Claim C6, amended. For a cell \<open>(m, i, j)\<close> with \<open>i < j\<close> the floor is
  \<open>x_size[j+1] + x_size[i+1] + tmp_fwd[i]\<close>, and for \<open>j > i + 1\<close> the larger of that and
  \<open>x_size[j+1]\<close> plus the maximum over the interior stages \<open>k\<close> of
  \<open>x_size[k] + x_size[k+1] + tmp_fwd[k]\<close>; so it covers that maximum; and whenever
  \<open>m < mmin\<close> the cell is \<open>+\<infinity>\<close>.
\<close>

theorem feasibility_floor:
  assumes "chain_wf c" and "compute_table c mmax = Inr (opt, what)"
    and "i < j" and "j \<le> chain_length c" and "0 \<le> m" and "m \<le> mmax"
  shows "mmin c i j =
           (if i + 1 < j
            then max (cw c ! (j + 1) + cw c ! (i + 1) + ftmp c ! i)
                     (cw c ! (j + 1) + Max ((\<lambda>k. cw c ! k + cw c ! (k + 1) + ftmp c ! k) ` {i + 1..<j}))
            else cw c ! (j + 1) + cw c ! (i + 1) + ftmp c ! i) \<and>
         (\<forall>k. i < k \<and> k < j \<longrightarrow> cw c ! k + cw c ! (k + 1) + ftmp c ! k \<le> mmin c i j) \<and>
         (m < mmin c i j \<longrightarrow> opt (m, i, j) = Some Infty)"
proof -
  have T: "opt = opt_final c mmax"
    using assms(1,2) by (simp add: compute_table_eq)
  let ?g = "\<lambda>k. cw c ! k + cw c ! (k + 1) + ftmp c ! k"
  have ml: "i + 1 < j \<Longrightarrow> max_list (map ?g [i + 1..<j]) = Max (?g ` {i + 1..<j})"
    using max_list_Max[of "map ?g [i + 1..<j]"] by simp
  have eq: "mmin c i j =
           (if i + 1 < j
            then max (cw c ! (j + 1) + cw c ! (i + 1) + ftmp c ! i)
                     (cw c ! (j + 1) + Max (?g ` {i + 1..<j}))
            else cw c ! (j + 1) + cw c ! (i + 1) + ftmp c ! i)"
    using ml by (simp add: mmin_def Let_def)
  have cover: "\<forall>k. i < k \<and> k < j \<longrightarrow> ?g k \<le> mmin c i j"
  proof (intro allI impI)
    fix k assume k: "i < k \<and> k < j"
    then have lt: "i + 1 < j" by simp
    have "?g k \<le> Max (?g ` {i + 1..<j})" using k by (intro Max_ge) auto
    moreover have "0 \<le> cw c ! (j + 1)" using cw_nonneg[OF _ assms(1), of "j + 1"] assms(4) by simp
    ultimately show "?g k \<le> mmin c i j" unfolding eq using lt by simp
  qed
  have inf: "m < mmin c i j \<longrightarrow> opt (m, i, j) = Some Infty"
    unfolding T using assms(3-) by (simp add: opt_final_def opt_val_range)
  show ?thesis using eq cover inf by blast
qed

section \<open>The table on the example chains\<close>

lemma chain3_wf: "chain_wf chain3"
  by code_simp

lemma chain3_table: "compute_table chain3 8 = Inr (opt_final chain3 8, what_final chain3 8)"
  by (rule compute_table_eq[OF chain3_wf])

theorem opt_nonincreasing_in_memory_witness:
  "chain_wf chain3 \<and> compute_table chain3 8 = Inr (opt_final chain3 8, what_final chain3 8) \<and>
   (0::nat) \<le> 3 \<and> 3 \<le> chain_length chain3 \<and> (0::int) \<le> 4 \<and> (4::int) \<le> 5 \<and> (5::int) \<le> 8 \<and>
   opt_final chain3 8 (4, 0, 3) = Some (Fin 12) \<and> opt_final chain3 8 (5, 0, 3) = Some (Fin 10) \<and>
   Fin 10 \<le> Fin 12"
proof -
  have len: "3 \<le> chain_length chain3" by code_simp
  have v: "opt_final chain3 8 (4, 0, 3) = Some (Fin 12)" "opt_final chain3 8 (5, 0, 3) = Some (Fin 10)"
    by code_simp+
  show ?thesis
    using opt_nonincreasing_in_memory[OF chain3_wf chain3_table _ len, of 0 4 5]
      chain3_wf chain3_table len v by simp
qed

theorem leaf_option_value_and_choice_witness:
  "chain_wf chain3 \<and> compute_table chain3 8 = Inr (opt_final chain3 8, what_final chain3 8) \<and>
   (0::nat) < 3 \<and> 3 \<le> chain_length chain3 \<and> (0::int) \<le> 5 \<and> (5::int) \<le> 8 \<and>
   mmin chain3 0 3 \<le> 5 \<and>
   leaf_checkpoints chain3 (opt_final chain3 8) 5 0 3 = Inr [(1, Fin 10), (2, Fin 12), (3, Fin 15)] \<and>
   chain_checkpoint chain3 (opt_final chain3 8) 5 0 3 = Inr (Fin 10) \<and>
   best_leaf [(1, Fin 10), (2, Fin 12), (3, Fin 15)] = Some (1, Fin 10) \<and>
   opt_final chain3 8 (5, 0, 3) = Some (Fin 10) \<and>
   what_final chain3 8 (5, 0, 3) = Some (LeafCkpt 1)"
proof -
  have len: "3 \<le> chain_length chain3" by code_simp
  have mm: "mmin chain3 0 3 \<le> 5" by code_simp
  have l: "leaf_checkpoints chain3 (opt_final chain3 8) 5 0 3
      = Inr [(1, Fin 10), (2, Fin 12), (3, Fin 15)]" by code_simp
  have c: "chain_checkpoint chain3 (opt_final chain3 8) 5 0 3 = Inr (Fin 10)" by code_simp
  have b: "best_leaf [(1, Fin 10), (2, Fin 12), (3, Fin 15)] = Some (1, Fin 10)" by code_simp
  have d: "decide (Some (1, Fin 10)) (Fin 10) = (Fin 10, LeafCkpt 1)" by code_simp
  show ?thesis
    using leaf_option_value_and_choice[OF chain3_wf chain3_table _ len _ _ mm]
      chain3_wf chain3_table len mm l c b d by simp
qed




theorem feasibility_floor_witness:
  "chain_wf chain3 \<and> compute_table chain3 8 = Inr (opt_final chain3 8, what_final chain3 8) \<and>
   (0::nat) < 3 \<and> 3 \<le> chain_length chain3 \<and> (0::int) \<le> 1 \<and> (1::int) \<le> 8 \<and>
   mmin chain3 0 3 = 2 \<and> (1::int) < mmin chain3 0 3 \<and>
   opt_final chain3 8 (1, 0, 3) = Some Infty"
proof -
  have len: "3 \<le> chain_length chain3" by code_simp
  have mm: "mmin chain3 0 3 = 2" by code_simp
  show ?thesis
    using feasibility_floor[OF chain3_wf chain3_table _ len, of 0 1]
      chain3_wf chain3_table len mm by simp
qed

lemma chain_unit_wf: "chain_wf chain_unit"
  by code_simp

theorem feasibility_floor_differs:
  "compute_table chain_unit 2 = Inr (opt_final chain_unit 2, what_final chain_unit 2) \<and>
   mmin chain_unit 0 2 = 3 \<and> mmin_spec chain_unit 0 2 = 2 \<and>
   mmin chain_unit 0 2 \<noteq> mmin_spec chain_unit 0 2 \<and>
   opt_final chain_unit 2 (2, 0, 2) = Some Infty \<and>
   chain_checkpoint chain_unit (opt_final chain_unit 2) 2 0 2 = Inr (Fin 6)"
proof -
  have t: "compute_table chain_unit 2 = Inr (opt_final chain_unit 2, what_final chain_unit 2)"
    by (rule compute_table_eq[OF chain_unit_wf])
  have "mmin chain_unit 0 2 = 3" by code_simp
  moreover have "mmin_spec chain_unit 0 2 = 2" by code_simp
  moreover have "opt_final chain_unit 2 (2, 0, 2) = Some Infty" by code_simp
  moreover have "chain_checkpoint chain_unit (opt_final chain_unit 2) 2 0 2 = Inr (Fin 6)"
    by code_simp
  ultimately show ?thesis using t by simp
qed

section \<open>The reconstruction\<close>

lemma cost_add_Fin:
  "x + y = Fin t \<Longrightarrow> \<exists>a b. x = Fin a \<and> y = Fin b \<and> t = a + b"
  by (cases x; cases y) auto

lemma rec_neg:
  "cmem \<le> 0 \<Longrightarrow> rec c lmin lmax cmem T = Some (Inl (NegativeMemory cmem))"
  by (subst rec.simps) simp

lemma rec_lookup:
  "0 < cmem \<Longrightarrow> fst T (cmem, lmin, lmax) = None \<Longrightarrow>
     rec c lmin lmax cmem T = Some (Inl LookupError)"
  by (subst rec.simps) (simp add: rd_def)

lemma rec_inf:
  "0 < cmem \<Longrightarrow> fst T (cmem, lmin, lmax) = Some Infty \<Longrightarrow>
     rec c lmin lmax cmem T = Some (Inl (Infeasible lmin lmax cmem))"
  by (subst rec.simps) (simp add: rd_def)

lemma rec_base:
  "0 < cmem \<Longrightarrow> fst T (cmem, l, l) = Some (Fin t) \<Longrightarrow>
     rec c l l cmem T =
       Some (Inr (if l = chain_length c then [Loss] else [ForwardEnable l, Backward l]))"
  by (subst rec.simps) (simp add: rd_def)

lemma rec_chain:
  "0 < cmem \<Longrightarrow> fst T (cmem, lmin, lmax) = Some (Fin t) \<Longrightarrow> lmin \<noteq> lmax \<Longrightarrow>
   snd T (cmem, lmin, lmax) = Some ChainCkpt \<Longrightarrow> lmin + 1 < length (cbweight c) \<Longrightarrow>
     rec c lmin lmax cmem T =
       Option.bind (rec c (lmin + 1) lmax (cmem - cbweight c ! (lmin + 1)) T)
         (\<lambda>r. case r of Inl e \<Rightarrow> Some (Inl e)
            | Inr s \<Rightarrow> Some (Inr (ForwardEnable lmin # s @ [Backward lmin])))"
  by (subst rec.simps) (simp add: rd_def nth_err_def)

lemma rec_leaf:
  "0 < cmem \<Longrightarrow> fst T (cmem, lmin, lmax) = Some (Fin t) \<Longrightarrow> lmin \<noteq> lmax \<Longrightarrow>
   snd T (cmem, lmin, lmax) = Some (LeafCkpt j) \<Longrightarrow> j < length (cweight c) \<Longrightarrow> j \<noteq> 0 \<Longrightarrow>
     rec c lmin lmax cmem T =
       Option.bind (rec c j lmax (cmem - cweight c ! j) T)
         (\<lambda>r1. case r1 of Inl e \<Rightarrow> Some (Inl e)
            | Inr s1 \<Rightarrow>
                Option.bind (rec c lmin (j - 1) cmem T)
                  (\<lambda>r2. case r2 of Inl e \<Rightarrow> Some (Inl e)
                     | Inr s2 \<Rightarrow>
                         Some (Inr (ForwardCheck lmin #
                           map ForwardNograd [lmin + 1..<j] @ s1 @ s2))))"
  by (subst rec.simps) (simp add: rd_def nth_err_def cong: sum.case_cong)

lemma seq_time_Cons: "seq_time c (x # s) = op_time c x + seq_time c s"
  by (simp add: seq_time_def)

lemma seq_time_append: "seq_time c (s @ s') = seq_time c s + seq_time c s'"
  by (simp add: seq_time_def)

lemma seq_time_Nil: "seq_time c [] = 0"
  by (simp add: seq_time_def)

lemma seq_time_nograd: "seq_time c (map ForwardNograd [a..<b]) = (\<Sum>t = a..<b. fw c ! t)"
  by (simp add: seq_time_def comp_def interv_sum_list_conv_sum_set_nat)

lemma decide_chain:
  "decide b ch = (v, ChainCkpt) \<Longrightarrow> v = ch"
  by (auto simp: decide_def split: option.splits if_splits)

lemma decide_leaf:
  "decide (best_leaf xs) ch = (v, LeafCkpt k) \<Longrightarrow> (k, v) \<in> set xs"
  using best_leaf_Some(1)[of xs]
  by (auto simp: decide_def split: option.splits if_splits)

lemma cbweight_nth: "chain_wf c \<Longrightarrow> k \<le> chain_length c \<Longrightarrow> cbweight c ! k = cbw c ! k"
  by (simp add: chain_wf_def cbw_def nth_append)

lemma cweight_nth: "chain_wf c \<Longrightarrow> k \<le> chain_length c \<Longrightarrow> cweight c ! k = cw c ! k"
  by (simp add: chain_wf_def cw_def nth_append)

lemma rec_final:
  assumes wf: "chain_wf c"
  shows "lmin \<le> lmax \<Longrightarrow> lmax \<le> chain_length c \<Longrightarrow> 0 < cmem \<Longrightarrow> cmem \<le> mmax \<Longrightarrow>
     opt_val c cmem lmin lmax = Fin t \<Longrightarrow>
     \<exists>r. rec c lmin lmax cmem (opt_final c mmax, what_final c mmax) = Some r \<and> rec_ok c t r"
proof (induction "lmax - lmin" arbitrary: lmin lmax cmem t rule: less_induct)
  case less
  let ?T = "(opt_final c mmax, what_final c mmax)"
  have o: "fst ?T (cmem, lmin, lmax) = Some (Fin t)"
    using less.prems by (simp add: opt_final_def)
  have sub: "\<exists>r. rec c a b m' ?T = Some r \<and> rec_ok c t' r"
    if "b - a < lmax - lmin" "a \<le> b" "b \<le> chain_length c" "0 \<le> m'" "m' \<le> mmax"
      "opt_val c m' a b = Fin t'" for a b m' t'
  proof (cases "m' = 0")
    case True
    then show ?thesis using rec_neg[of m' c a b ?T] by (simp add: rec_ok_def)
  next
    case False
    then show ?thesis using less.hyps[OF that(1,2,3) _ that(5,6)] that(4) by simp
  qed
  show ?case
  proof (cases "lmin = lmax")
    case True
    have "t = fw c ! lmin + bw c ! lmin"
      using less.prems True by (simp add: opt_val_diag border_def split: if_splits)
    then show ?thesis
      using rec_base[of cmem ?T lmin t c] o True less.prems
      by (auto simp: rec_ok_def seq_time_def)
  next
    case False
    then have lt: "lmin < lmax" using less.prems by simp
    have nm: "\<not> cmem < mmin c lmin lmax"
      using less.prems(5) by (auto simp: opt_val_range[OF lt])
    have w: "snd ?T (cmem, lmin, lmax) = Some (what_val c cmem lmin lmax)"
      using less.prems lt nm by (simp add: what_final_def)
    have d: "decide (best_leaf (leaf_vals c cmem lmin lmax)) (chain_val c cmem lmin lmax)
        = (Fin t, what_val c cmem lmin lmax)"
      using less.prems(5) nm by (simp add: opt_val_range[OF lt] what_val_def prod_eq_iff)
    show ?thesis
    proof (cases "what_val c cmem lmin lmax")
      case ChainCkpt
      have cv: "chain_val c cmem lmin lmax = Fin t"
        using decide_chain d ChainCkpt by metis
      then have le: "cbw c ! (lmin + 1) \<le> cmem"
        by (auto simp: chain_val_def split: if_splits)
      have "opt_val c cmem lmin lmin + opt_val c (cmem - cbw c ! (lmin + 1)) (lmin + 1) lmax = Fin t"
        using cv le by (simp add: chain_val_def)
      from cost_add_Fin[OF this]
      obtain a b where a: "opt_val c cmem lmin lmin = Fin a"
        and b: "opt_val c (cmem - cbw c ! (lmin + 1)) (lmin + 1) lmax = Fin b"
        and t: "t = a + b"
        by blast
      have a': "a = fw c ! lmin + bw c ! lmin"
        using a by (simp add: opt_val_diag border_def split: if_splits)
      have nn: "0 \<le> cbw c ! (lmin + 1)"
        using cbw_nonneg[OF wf, of "lmin + 1"] lt less.prems by simp
      have eq: "cbweight c ! (lmin + 1) = cbw c ! (lmin + 1)"
        using cbweight_nth[OF wf, of "lmin + 1"] lt less.prems by simp
      have len: "lmin + 1 < length (cbweight c)"
        using wf lt less.prems by (simp add: chain_wf_def)
      have "\<exists>r. rec c (lmin + 1) lmax (cmem - cbw c ! (lmin + 1)) ?T = Some r \<and> rec_ok c b r"
        by (rule sub) (use lt less.prems le nn b in simp_all)
      then obtain r where r: "rec c (lmin + 1) lmax (cmem - cbw c ! (lmin + 1)) ?T = Some r"
        and rok: "rec_ok c b r"
        by blast
      have "rec c lmin lmax cmem ?T =
          Option.bind (rec c (lmin + 1) lmax (cmem - cbweight c ! (lmin + 1)) ?T)
         (\<lambda>r. case r of Inl e \<Rightarrow> Some (Inl e)
            | Inr s \<Rightarrow> Some (Inr (ForwardEnable lmin # s @ [Backward lmin])))"
        using w ChainCkpt by (intro rec_chain[OF less.prems(3) o False _ len]) simp
      then show ?thesis
        using r rok unfolding eq
        by (cases r) (auto simp: rec_ok_def seq_time_Cons seq_time_append seq_time_Nil t a')
    next
      case (LeafCkpt k)
      have mem: "(k, Fin t) \<in> set (leaf_vals c cmem lmin lmax)"
        using decide_leaf d LeafCkpt by metis
      then have k: "lmin < k" "k \<le> lmax" "cw c ! k \<le> cmem"
        and v: "Fin t = Fin (fw_sum c lmin k) + opt_val c (cmem - cw c ! k) k lmax
                  + opt_val c cmem lmin (k - 1)"
        by (auto simp: leaf_vals_mem)
      obtain x b2 where x: "Fin (fw_sum c lmin k) + opt_val c (cmem - cw c ! k) k lmax = Fin x"
        and b2: "opt_val c cmem lmin (k - 1) = Fin b2" and t1: "t = x + b2"
        using cost_add_Fin[OF v[symmetric]] by auto
      obtain b1 where b1: "opt_val c (cmem - cw c ! k) k lmax = Fin b1"
        and t2: "x = fw_sum c lmin k + b1"
        using cost_add_Fin[OF x] by auto
      have nn: "0 \<le> cw c ! k" using cw_nonneg[OF _ wf, of k] k less.prems by simp
      have eq: "cweight c ! k = cw c ! k"
        using cweight_nth[OF wf, of k] k less.prems by simp
      have len: "k < length (cweight c)"
        using wf k less.prems by (simp add: chain_wf_def)
      have k0: "k \<noteq> 0" using k by simp
      have fs: "fw_sum c lmin k = fw c ! lmin + (\<Sum>t = lmin + 1..<k. fw c ! t)"
      proof -
        have "k \<le> length (fw c)" using k less.prems by (simp add: fw_def chain_length_def)
        then have "fw_sum c lmin k = (\<Sum>t = lmin..<k. fw c ! t)" by (rule fw_sum_eq)
        also have "\<dots> = fw c ! lmin + (\<Sum>t = lmin + 1..<k. fw c ! t)"
          using k by (simp add: sum.atLeast_Suc_lessThan)
        finally show ?thesis .
      qed
      have "\<exists>r. rec c k lmax (cmem - cw c ! k) ?T = Some r \<and> rec_ok c b1 r"
        by (rule sub) (use k less.prems nn b1 in simp_all)
      then obtain r1 where r1: "rec c k lmax (cmem - cw c ! k) ?T = Some r1" and r1ok: "rec_ok c b1 r1"
        by blast
      have "\<exists>r. rec c lmin (k - 1) cmem ?T = Some r \<and> rec_ok c b2 r"
        by (rule sub) (use k less.prems b2 in simp_all)
      then obtain r2 where r2: "rec c lmin (k - 1) cmem ?T = Some r2" and r2ok: "rec_ok c b2 r2"
        by blast
      have "rec c lmin lmax cmem ?T =
       Option.bind (rec c k lmax (cmem - cweight c ! k) ?T)
         (\<lambda>r1. case r1 of Inl e \<Rightarrow> Some (Inl e)
            | Inr s1 \<Rightarrow>
                Option.bind (rec c lmin (k - 1) cmem ?T)
                  (\<lambda>r2. case r2 of Inl e \<Rightarrow> Some (Inl e)
                     | Inr s2 \<Rightarrow>
                         Some (Inr (ForwardCheck lmin #
                           map ForwardNograd [lmin + 1..<k] @ s1 @ s2))))"
        using w LeafCkpt by (intro rec_leaf[OF less.prems(3) o False _ len k0]) simp
      then show ?thesis
        using r1 r1ok r2 r2ok unfolding eq
        by (cases r1; cases r2)
          (auto simp: rec_ok_def seq_time_Cons seq_time_append seq_time_nograd t1 t2 fs)
    qed
  qed
qed

lemma sizes_positiveD:
  assumes "sizes_positive c"
  shows "1 \<le> k \<Longrightarrow> k \<le> chain_length c \<Longrightarrow> 1 \<le> cw c ! k \<and> 1 \<le> cbw c ! k"
    and "i \<le> chain_length c \<Longrightarrow> 0 \<le> ftmp c ! i \<and> 0 \<le> btmp c ! i"
  using assms by (auto simp: sizes_positive_def list_all_iff)

lemma border_finite: "border c m i = Fin a \<Longrightarrow> limit c i \<le> m"
  by (simp add: border_def split: if_splits)

lemma limit_lower:
  assumes "sizes_positive c" and "i < chain_length c"
  shows "cw c ! (i + 1) + cbw c ! (i + 1) \<le> limit c i"
  using sizes_positiveD(2)[OF assms(1), of i] assms(2) by (simp add: limit_def max_def)

lemma mmin_lower: "cw c ! (j + 1) + cw c ! (i + 1) + ftmp c ! i \<le> mmin c i j"
  by (simp add: mmin_def Let_def)

lemma prefix_needs_room:
  assumes wf: "chain_wf c" and pos: "sizes_positive c"
    and k: "i < k" "k \<le> chain_length c" and fin: "opt_val c m i (k - 1) = Fin b"
  shows "cw c ! k < m"
proof (cases "k - 1 = i")
  case True
  have "limit c i \<le> m" using fin True by (simp add: opt_val_diag border_finite)
  moreover have "cw c ! (i + 1) + cbw c ! (i + 1) \<le> limit c i"
    using limit_lower[OF pos, of i] k by simp
  moreover have "1 \<le> cbw c ! (i + 1)" using sizes_positiveD(1)[OF pos, of "i + 1"] k by simp
  moreover have "i + 1 = k" using True k by simp
  ultimately show ?thesis by simp
next
  case False
  then have lt: "i < k - 1" using k by simp
  have "\<not> m < mmin c i (k - 1)"
    using fin opt_val_range[OF lt, of c m] by (auto split: if_splits)
  moreover have "cw c ! (k - 1 + 1) + cw c ! (i + 1) + ftmp c ! i \<le> mmin c i (k - 1)"
    by (rule mmin_lower)
  moreover have "1 \<le> cw c ! (i + 1)" using sizes_positiveD(1)[OF pos, of "i + 1"] k by simp
  moreover have "0 \<le> ftmp c ! i" using sizes_positiveD(2)[OF pos, of i] k by simp
  moreover have "k - 1 + 1 = k" using k by simp
  ultimately show ?thesis by simp
qed

lemma rec_final_pos:
  assumes wf: "chain_wf c" and pos: "sizes_positive c"
  shows "lmin \<le> lmax \<Longrightarrow> lmax \<le> chain_length c \<Longrightarrow> 0 < cmem \<Longrightarrow> cmem \<le> mmax \<Longrightarrow>
     opt_val c cmem lmin lmax = Fin t \<Longrightarrow>
     \<exists>s. rec c lmin lmax cmem (opt_final c mmax, what_final c mmax) = Some (Inr s)"
proof (induction "lmax - lmin" arbitrary: lmin lmax cmem t rule: less_induct)
  case less
  let ?T = "(opt_final c mmax, what_final c mmax)"
  have o: "fst ?T (cmem, lmin, lmax) = Some (Fin t)"
    using less.prems by (simp add: opt_final_def)
  show ?case
  proof (cases "lmin = lmax")
    case True
    then show ?thesis
      using rec_base[of cmem ?T lmin t c] o less.prems by auto
  next
    case False
    then have lt: "lmin < lmax" using less.prems by simp
    have nm: "\<not> cmem < mmin c lmin lmax"
      using less.prems(5) by (auto simp: opt_val_range[OF lt])
    have w: "snd ?T (cmem, lmin, lmax) = Some (what_val c cmem lmin lmax)"
      using less.prems lt nm by (simp add: what_final_def)
    have d: "decide (best_leaf (leaf_vals c cmem lmin lmax)) (chain_val c cmem lmin lmax)
        = (Fin t, what_val c cmem lmin lmax)"
      using less.prems(5) nm by (simp add: opt_val_range[OF lt] what_val_def prod_eq_iff)
    show ?thesis
    proof (cases "what_val c cmem lmin lmax")
      case ChainCkpt
      have cv: "chain_val c cmem lmin lmax = Fin t"
        using decide_chain d ChainCkpt by metis
      then have le: "cbw c ! (lmin + 1) \<le> cmem"
        by (auto simp: chain_val_def split: if_splits)
      have "opt_val c cmem lmin lmin + opt_val c (cmem - cbw c ! (lmin + 1)) (lmin + 1) lmax = Fin t"
        using cv le by (simp add: chain_val_def)
      from cost_add_Fin[OF this]
      obtain a b where a: "opt_val c cmem lmin lmin = Fin a"
        and b: "opt_val c (cmem - cbw c ! (lmin + 1)) (lmin + 1) lmax = Fin b"
        by blast
      have "limit c lmin \<le> cmem" using a by (simp add: opt_val_diag border_finite)
      moreover have "cw c ! (lmin + 1) + cbw c ! (lmin + 1) \<le> limit c lmin"
        using limit_lower[OF pos, of lmin] lt less.prems by simp
      moreover have "1 \<le> cw c ! (lmin + 1)"
        using sizes_positiveD(1)[OF pos, of "lmin + 1"] lt less.prems by simp
      ultimately have room: "0 < cmem - cbw c ! (lmin + 1)" by simp
      have nn: "0 \<le> cbw c ! (lmin + 1)"
        using cbw_nonneg[OF wf, of "lmin + 1"] lt less.prems by simp
      have eq: "cbweight c ! (lmin + 1) = cbw c ! (lmin + 1)"
        using cbweight_nth[OF wf, of "lmin + 1"] lt less.prems by simp
      have len: "lmin + 1 < length (cbweight c)"
        using wf lt less.prems by (simp add: chain_wf_def)
      have "\<exists>s. rec c (lmin + 1) lmax (cmem - cbw c ! (lmin + 1)) ?T = Some (Inr s)"
        by (rule less.hyps[OF _ _ _ room _ b]) (use lt less.prems nn in simp_all)
      then obtain s where s: "rec c (lmin + 1) lmax (cmem - cbw c ! (lmin + 1)) ?T = Some (Inr s)"
        by blast
      have "rec c lmin lmax cmem ?T =
          Option.bind (rec c (lmin + 1) lmax (cmem - cbweight c ! (lmin + 1)) ?T)
         (\<lambda>r. case r of Inl e \<Rightarrow> Some (Inl e)
            | Inr s \<Rightarrow> Some (Inr (ForwardEnable lmin # s @ [Backward lmin])))"
        using w ChainCkpt by (intro rec_chain[OF less.prems(3) o False _ len]) simp
      then show ?thesis using s unfolding eq by simp
    next
      case (LeafCkpt k)
      have mem: "(k, Fin t) \<in> set (leaf_vals c cmem lmin lmax)"
        using decide_leaf d LeafCkpt by metis
      then have k: "lmin < k" "k \<le> lmax" "cw c ! k \<le> cmem"
        and v: "Fin t = Fin (fw_sum c lmin k) + opt_val c (cmem - cw c ! k) k lmax
                  + opt_val c cmem lmin (k - 1)"
        by (auto simp: leaf_vals_mem)
      obtain x b2 where x: "Fin (fw_sum c lmin k) + opt_val c (cmem - cw c ! k) k lmax = Fin x"
        and b2: "opt_val c cmem lmin (k - 1) = Fin b2"
        using cost_add_Fin[OF v[symmetric]] by auto
      obtain b1 where b1: "opt_val c (cmem - cw c ! k) k lmax = Fin b1"
        using cost_add_Fin[OF x] by auto
      have room: "0 < cmem - cw c ! k"
        using prefix_needs_room[OF wf pos k(1) _ b2] k less.prems by simp
      have nn: "0 \<le> cw c ! k" using cw_nonneg[OF _ wf, of k] k less.prems by simp
      have eq: "cweight c ! k = cw c ! k"
        using cweight_nth[OF wf, of k] k less.prems by simp
      have len: "k < length (cweight c)"
        using wf k less.prems by (simp add: chain_wf_def)
      have k0: "k \<noteq> 0" using k by simp
      have "\<exists>s. rec c k lmax (cmem - cw c ! k) ?T = Some (Inr s)"
        by (rule less.hyps[OF _ _ _ room _ b1]) (use k less.prems nn in simp_all)
      then obtain s1 where s1: "rec c k lmax (cmem - cw c ! k) ?T = Some (Inr s1)" by blast
      have "\<exists>s. rec c lmin (k - 1) cmem ?T = Some (Inr s)"
        by (rule less.hyps[OF _ _ _ less.prems(3) _ b2]) (use k less.prems in simp_all)
      then obtain s2 where s2: "rec c lmin (k - 1) cmem ?T = Some (Inr s2)" by blast
      have "rec c lmin lmax cmem ?T =
       Option.bind (rec c k lmax (cmem - cweight c ! k) ?T)
         (\<lambda>r1. case r1 of Inl e \<Rightarrow> Some (Inl e)
            | Inr s1 \<Rightarrow>
                Option.bind (rec c lmin (k - 1) cmem ?T)
                  (\<lambda>r2. case r2 of Inl e \<Rightarrow> Some (Inl e)
                     | Inr s2 \<Rightarrow>
                         Some (Inr (ForwardCheck lmin #
                           map ForwardNograd [lmin + 1..<k] @ s1 @ s2))))"
        using w LeafCkpt by (intro rec_leaf[OF less.prems(3) o False _ len k0]) simp
      then show ?thesis using s1 s2 unfolding eq by simp
    qed
  qed
qed

text \<open>
  Claim C1. For a request \<open>(lmin, lmax, cmem)\<close> with \<open>cmem > 0\<close> and a finite
  \<open>opt[cmem][lmin][lmax]\<close> in the table of \<open>_compute_table\<close>, the call of \<open>_rec\<close> ends,
  and the sequence it returns has a total time equal to \<open>opt[cmem][lmin][lmax]\<close>, where
  \<open>Loss\<close> counts for the terminal costs \<open>fwd_time[L] + bwd_time[L]\<close>. When every stage size
  is positive, a sequence is returned.
\<close>

theorem rec_total_time_equals_opt:
  assumes "chain_wf c" and "compute_table c mmax = Inr T"
    and "0 < cmem" and "fst T (cmem, lmin, lmax) = Some (Fin t)"
  shows "\<exists>r. rec c lmin lmax cmem T = Some r \<and> (\<forall>s. r = Inr s \<longrightarrow> seq_time c s = t) \<and>
           (sizes_positive c \<longrightarrow> (\<exists>s. r = Inr s))"
proof -
  have T: "T = (opt_final c mmax, what_final c mmax)"
    using assms(1,2) by (simp add: compute_table_eq)
  have rng: "lmin \<le> lmax" "lmax \<le> chain_length c" "cmem \<le> mmax"
    and v: "opt_val c cmem lmin lmax = Fin t"
    using assms(4) unfolding T by (auto simp: opt_final_def split: if_splits)
  obtain r where r: "rec c lmin lmax cmem T = Some r" and "rec_ok c t r"
    using rec_final[OF assms(1) rng(1,2) assms(3) rng(3) v] unfolding T by blast
  moreover have "sizes_positive c \<longrightarrow> (\<exists>s. r = Inr s)"
    using rec_final_pos[OF assms(1) _ rng(1,2) assms(3) rng(3) v] r unfolding T
    by auto
  ultimately show ?thesis by (auto simp: rec_ok_def)
qed

text \<open>
  Claim C7, amended. If \<open>cmem \<le> 0\<close>, \<open>_rec\<close> raises the error that names the memory
  value (and not the range); if \<open>cmem > 0\<close> and \<open>opt[cmem][lmin][lmax]\<close> is \<open>+\<infinity>\<close>, it
  raises the error that names \<open>lmin\<close>, \<open>lmax\<close> and \<open>cmem\<close>; in both cases it returns no
  sequence. On a request with \<open>cmem > 0\<close> and a finite entry in the solver's own table,
  \<open>_rec\<close> ends without the error that names the range and without a lookup error; and
  when every stage size is positive it raises no error and returns a sequence.
\<close>

theorem rec_errors:
  "(cmem \<le> 0 \<longrightarrow> rec c lmin lmax cmem T = Some (Inl (NegativeMemory cmem))) \<and>
   (0 < cmem \<and> fst T (cmem, lmin, lmax) = Some Infty \<longrightarrow>
      rec c lmin lmax cmem T = Some (Inl (Infeasible lmin lmax cmem))) \<and>
   (chain_wf c \<and> compute_table c mmax = Inr T \<and> 0 < cmem \<and>
    fst T (cmem, lmin, lmax) = Some (Fin t) \<longrightarrow>
      (\<exists>r. rec c lmin lmax cmem T = Some r \<and> r \<noteq> Inl LookupError \<and>
         (\<forall>a b m. r \<noteq> Inl (Infeasible a b m)) \<and>
         (sizes_positive c \<longrightarrow> (\<exists>s. r = Inr s))))"
proof (intro conjI impI)
  assume "cmem \<le> 0"
  then show "rec c lmin lmax cmem T = Some (Inl (NegativeMemory cmem))" by (rule rec_neg)
next
  assume "0 < cmem \<and> fst T (cmem, lmin, lmax) = Some Infty"
  then show "rec c lmin lmax cmem T = Some (Inl (Infeasible lmin lmax cmem))"
    using rec_inf by blast
next
  assume a: "chain_wf c \<and> compute_table c mmax = Inr T \<and> 0 < cmem \<and>
    fst T (cmem, lmin, lmax) = Some (Fin t)"
  then have wf: "chain_wf c" and ct: "compute_table c mmax = Inr T" and pos: "0 < cmem"
    and o: "fst T (cmem, lmin, lmax) = Some (Fin t)"
    by blast+
  have T: "T = (opt_final c mmax, what_final c mmax)"
    using wf ct by (simp add: compute_table_eq)
  have rng: "lmin \<le> lmax" "lmax \<le> chain_length c" "cmem \<le> mmax"
    and v: "opt_val c cmem lmin lmax = Fin t"
    using o unfolding T by (auto simp: opt_final_def split: if_splits)
  obtain r where r: "rec c lmin lmax cmem T = Some r" and "rec_ok c t r"
    using rec_final[OF wf rng(1,2) pos rng(3) v] unfolding T by blast
  moreover have "sizes_positive c \<longrightarrow> (\<exists>s. r = Inr s)"
    using rec_final_pos[OF wf _ rng(1,2) pos rng(3) v] r unfolding T by auto
  ultimately show "\<exists>r. rec c lmin lmax cmem T = Some r \<and> r \<noteq> Inl LookupError \<and>
         (\<forall>a b m. r \<noteq> Inl (Infeasible a b m)) \<and>
         (sizes_positive c \<longrightarrow> (\<exists>s. r = Inr s))"
    by (cases r) (auto simp: rec_ok_def)
qed

text \<open>
  Claim C4, amended. For a one-stage chain with \<open>fwd_time = [5]\<close> and \<open>bwd_time = [3]\<close>
  (terminal costs 0) whose floors are met at \<open>mmax\<close>, and at \<open>mmax - xbar_size[1]\<close> for
  the terminal stage, with \<open>xbar_size[1] < mmax\<close>: \<open>opt[mmax][0][1] = 8\<close> and \<open>_rec\<close> returns
  exactly \<open>[ForwardEnable(0), Loss, Backward(0)]\<close>, of total time 8.
\<close>

theorem one_stage_chain:
  assumes wf: "chain_wf c" and f: "fweight c = [5]" and b: "bweight c = [3, 0]"
    and l0: "limit c 0 \<le> mmax" and mm: "mmin c 0 1 \<le> mmax"
    and l1: "limit c 1 \<le> mmax - cbw c ! 1" and pos: "cbw c ! 1 < mmax"
  shows "\<exists>T. compute_table c mmax = Inr T \<and> fst T (mmax, 0, 1) = Some (Fin 8) \<and>
           rec c 0 1 mmax T = Some (Inr [ForwardEnable 0, Loss, Backward 0]) \<and>
           seq_time c [ForwardEnable 0, Loss, Backward 0] = 8"
proof -
  let ?T = "(opt_final c mmax, what_final c mmax)"
  have L: "chain_length c = 1" using f by (simp add: chain_length_def)
  have nn: "0 \<le> cbw c ! 1" using cbw_nonneg[OF wf, of 1] by simp
  have m0: "0 < mmax" using nn pos by simp
  have fw0: "fw c ! 0 = 5" "fw c ! 1 = 0" using f by (simp_all add: fw_def)
  have bw0: "bw c ! 0 = 3" "bw c ! 1 = 0" using b by (simp_all add: bw_def)
  have o00: "opt_val c mmax 0 0 = Fin 8"
    using l0 fw0 bw0 by (simp add: opt_val_diag border_def)
  have o11: "opt_val c (mmax - cbw c ! 1) 1 1 = Fin 0"
    using l1 fw0 bw0 by (simp add: opt_val_diag border_def)
  have cv: "chain_val c mmax 0 1 = Fin 8"
    using pos o00 o11 by (simp add: chain_val_def)
  have fs: "fw_sum c 0 1 = 5" using f by (simp add: fw_sum_def fw_def)
  have lv: "\<And>y. y \<in> set (leaf_vals c mmax 0 1) \<Longrightarrow> \<not> snd y \<le> Fin 8"
  proof -
    fix y assume "y \<in> set (leaf_vals c mmax 0 1)"
    then obtain k where k: "0 < k" "k \<le> 1"
      and yk: "y = (k, Fin (fw_sum c 0 k) + opt_val c (mmax - cw c ! k) k 1 + opt_val c mmax 0 (k - 1))"
      by (auto simp: leaf_vals_mem)
    have "k = 1" using k by simp
    then have y: "snd y = Fin 5 + opt_val c (mmax - cw c ! 1) 1 1 + Fin 8"
      using yk fs o00 by simp
    show "\<not> snd y \<le> Fin 8"
      unfolding y using fw0 bw0 by (cases "opt_val c (mmax - cw c ! 1) 1 1")
        (auto simp: opt_val_diag border_def split: if_splits)
  qed
  have d: "decide (best_leaf (leaf_vals c mmax 0 1)) (chain_val c mmax 0 1) = (Fin 8, ChainCkpt)"
  proof (cases "best_leaf (leaf_vals c mmax 0 1)")
    case None
    then show ?thesis using cv by (simp add: decide_def)
  next
    case (Some y)
    then show ?thesis
      using lv[OF best_leaf_Some(1)[OF Some]] cv by (cases y) (simp add: decide_def)
  qed
  have o01: "opt_val c mmax 0 1 = Fin 8"
    using mm d by (simp add: opt_val_range)
  have w01: "what_val c mmax 0 1 = ChainCkpt"
    using d by (simp add: what_val_def)
  have fo: "fst ?T (mmax, 0, 1) = Some (Fin 8)"
    using m0 L o01 by (simp add: opt_final_def)
  have sw: "snd ?T (mmax, 0, 1) = Some ChainCkpt"
    using m0 L mm w01 by (simp add: what_final_def)
  have len: "0 + 1 < length (cbweight c)" using wf L by (simp add: chain_wf_def)
  have eq: "cbweight c ! 1 = cbw c ! 1" using cbweight_nth[OF wf, of 1] L by simp
  have inner: "rec c 1 1 (mmax - cbw c ! 1) ?T = Some (Inr [Loss])"
  proof -
    have "fst ?T (mmax - cbw c ! 1, 1, 1) = Some (Fin 0)"
      using nn pos L o11 by (simp add: opt_final_def)
    then show ?thesis
      using rec_base[of "mmax - cbw c ! 1" ?T 1 0 c] pos L by simp
  qed
  have "rec c 0 1 mmax ?T = Some (Inr [ForwardEnable 0, Loss, Backward 0])"
    using rec_chain[OF m0 fo _ sw len] inner eq by simp
  moreover have "seq_time c [ForwardEnable 0, Loss, Backward 0] = 8"
    using fw0 bw0 L by (simp add: seq_time_def)
  ultimately show ?thesis
    using compute_table_eq[OF wf, of mmax] fo by blast
qed

theorem rec_total_time_equals_opt_witness:
  "chain_wf chain3 \<and> compute_table chain3 8 = Inr (opt_final chain3 8, what_final chain3 8) \<and>
   (0::int) < 5 \<and> sizes_positive chain3 \<and>
   fst (opt_final chain3 8, what_final chain3 8) (5, 0, 3) = Some (Fin 10) \<and>
   rec chain3 0 3 5 (opt_final chain3 8, what_final chain3 8) =
     Some (Inr [ForwardCheck 0, ForwardEnable 1, ForwardEnable 2, Loss, Backward 2,
                Backward 1, ForwardEnable 0, Backward 0]) \<and>
   seq_time chain3 [ForwardCheck 0, ForwardEnable 1, ForwardEnable 2, Loss, Backward 2,
                Backward 1, ForwardEnable 0, Backward 0] = 10"
proof -
  have o: "fst (opt_final chain3 8, what_final chain3 8) (5, 0, 3) = Some (Fin 10)"
    by code_simp
  have r: "rec chain3 0 3 5 (opt_final chain3 8, what_final chain3 8) =
     Some (Inr [ForwardCheck 0, ForwardEnable 1, ForwardEnable 2, Loss, Backward 2,
                Backward 1, ForwardEnable 0, Backward 0])"
    by code_simp
  have sp: "sizes_positive chain3" by code_simp
  show ?thesis
    using rec_total_time_equals_opt[OF chain3_wf chain3_table _ o] chain3_wf chain3_table o r sp
    by simp
qed

theorem rec_errors_witness:
  "(0::int) \<le> 0 \<and>
   rec chain3 0 3 0 (opt_final chain3 8, what_final chain3 8) = Some (Inl (NegativeMemory 0)) \<and>
   (0::int) < 1 \<and> fst (opt_final chain3 8, what_final chain3 8) (1, 0, 3) = Some Infty \<and>
   rec chain3 0 3 1 (opt_final chain3 8, what_final chain3 8) = Some (Inl (Infeasible 0 3 1)) \<and>
   chain_wf chain3 \<and> compute_table chain3 8 = Inr (opt_final chain3 8, what_final chain3 8) \<and>
   (0::int) < 5 \<and> fst (opt_final chain3 8, what_final chain3 8) (5, 0, 3) = Some (Fin 10) \<and>
   sizes_positive chain3 \<and>
   rec chain3 0 3 5 (opt_final chain3 8, what_final chain3 8) =
     Some (Inr [ForwardCheck 0, ForwardEnable 1, ForwardEnable 2, Loss, Backward 2,
                Backward 1, ForwardEnable 0, Backward 0])"
proof -
  let ?T = "(opt_final chain3 8, what_final chain3 8)"
  have o1: "fst ?T (1, 0, 3) = Some Infty" by code_simp
  have o5: "fst ?T (5, 0, 3) = Some (Fin 10)" by code_simp
  have r5: "rec chain3 0 3 5 ?T =
     Some (Inr [ForwardCheck 0, ForwardEnable 1, ForwardEnable 2, Loss, Backward 2,
                Backward 1, ForwardEnable 0, Backward 0])"
    by code_simp
  have sp: "sizes_positive chain3" by code_simp
  show ?thesis
    using rec_errors[of 0 chain3 0 3 ?T 8 0] rec_errors[of 1 chain3 0 3 ?T 8 0]
      rec_errors[of 5 chain3 0 3 ?T 8 10] chain3_wf chain3_table o1 o5 r5 sp
    by simp
qed

lemma chain_tight_wf: "chain_wf chain_tight"
  by code_simp

theorem rec_raises_on_feasible_request:
  "compute_table chain_tight 2 = Inr (opt_final chain_tight 2, what_final chain_tight 2) \<and>
   (0::int) < 2 \<and> opt_final chain_tight 2 (2, 0, 1) = Some (Fin 8) \<and>
   rec chain_tight 0 1 2 (opt_final chain_tight 2, what_final chain_tight 2)
     = Some (Inl (NegativeMemory 0)) \<and>
   rec chain_tight 0 1 0 (opt_final chain_tight 2, what_final chain_tight 2)
     = Some (Inl (NegativeMemory 0))"
proof -
  have t: "compute_table chain_tight 2 = Inr (opt_final chain_tight 2, what_final chain_tight 2)"
    by (rule compute_table_eq[OF chain_tight_wf])
  have "opt_final chain_tight 2 (2, 0, 1) = Some (Fin 8)" by code_simp
  moreover have "rec chain_tight 0 1 2 (opt_final chain_tight 2, what_final chain_tight 2)
     = Some (Inl (NegativeMemory 0))" by code_simp
  moreover have "rec chain_tight 0 1 0 (opt_final chain_tight 2, what_final chain_tight 2)
     = Some (Inl (NegativeMemory 0))" by code_simp
  ultimately show ?thesis using t by simp
qed

lemma chain_one_wf: "chain_wf chain_one"
  by code_simp

theorem one_stage_chain_witness:
  "chain_wf chain_one \<and> fweight chain_one = [5] \<and> bweight chain_one = [3, 0] \<and>
   limit chain_one 0 \<le> 4 \<and> mmin chain_one 0 1 \<le> 4 \<and>
   limit chain_one 1 \<le> 4 - cbw chain_one ! 1 \<and> cbw chain_one ! 1 < 4 \<and>
   compute_table chain_one 4 = Inr (opt_final chain_one 4, what_final chain_one 4) \<and>
   fst (opt_final chain_one 4, what_final chain_one 4) (4, 0, 1) = Some (Fin 8) \<and>
   rec chain_one 0 1 4 (opt_final chain_one 4, what_final chain_one 4)
     = Some (Inr [ForwardEnable 0, Loss, Backward 0]) \<and>
   seq_time chain_one [ForwardEnable 0, Loss, Backward 0] = 8"
proof -
  have h: "fweight chain_one = [5]" "bweight chain_one = [3, 0]"
    "limit chain_one 0 \<le> 4" "mmin chain_one 0 1 \<le> 4"
    "limit chain_one 1 \<le> 4 - cbw chain_one ! 1" "cbw chain_one ! 1 < 4"
    by code_simp+
  show ?thesis
    using one_stage_chain[OF chain_one_wf h] chain_one_wf h
      compute_table_eq[OF chain_one_wf, of 4] by auto
qed

theorem one_stage_sequence_order:
  "compute_table chain_one 4 = Inr (opt_final chain_one 4, what_final chain_one 4) \<and>
   limit chain_one 0 \<le> 4 \<and> limit chain_one 1 \<le> 4 \<and> mmin chain_one 0 1 \<le> 4 \<and>
   opt_final chain_one 4 (4, 0, 1) = Some (Fin 8) \<and>
   rec chain_one 0 1 4 (opt_final chain_one 4, what_final chain_one 4)
     = Some (Inr [ForwardEnable 0, Loss, Backward 0]) \<and>
   rec chain_one 0 1 4 (opt_final chain_one 4, what_final chain_one 4)
     \<noteq> Some (Inr [ForwardEnable 0, Backward 0, Loss])"
proof -
  have t: "compute_table chain_one 4 = Inr (opt_final chain_one 4, what_final chain_one 4)"
    by (rule compute_table_eq[OF chain_one_wf])
  have "limit chain_one 0 \<le> 4" "limit chain_one 1 \<le> 4" "mmin chain_one 0 1 \<le> 4"
    by code_simp+
  moreover have "opt_final chain_one 4 (4, 0, 1) = Some (Fin 8)" by code_simp
  moreover have "rec chain_one 0 1 4 (opt_final chain_one 4, what_final chain_one 4)
     = Some (Inr [ForwardEnable 0, Loss, Backward 0])" by code_simp
  ultimately show ?thesis using t by simp
qed

section \<open>Discretization\<close>





section \<open>The entry point\<close>




section \<open>The \<open>torch.var_mean\<close> branch\<close>

lemma elementwise_loop_keeps:
  "elementwise_loop ss chk fr = Inr fr' \<Longrightarrow>
     new_input_sharding_spec_bound fr' = new_input_sharding_spec_bound fr"
  by (induction ss chk fr rule: elementwise_loop.induct) (auto split: if_splits)

lemma getitem_loop_keeps:
  "getitem_loop ss fr = Inr fr' \<Longrightarrow>
     new_input_sharding_spec_bound fr' = new_input_sharding_spec_bound fr"
  by (induction ss fr rule: getitem_loop.induct) (auto split: if_splits)

lemma var_mean_loop_unbound:
  "\<not> new_input_sharding_spec_bound fr \<Longrightarrow>
     var_mean_loop (s # ss) fr = Inl (if is_sharding_spec s then NameError else AssertionError)"
  by simp

lemma var_mean_loop_keeps:
  "\<not> new_input_sharding_spec_bound fr \<Longrightarrow> var_mean_loop ss fr = Inr fr' \<Longrightarrow>
     \<not> new_input_sharding_spec_bound fr'"
  by (cases ss) (auto split: if_splits)

lemma process_node_keeps:
  assumes "\<not> new_input_sharding_spec_bound fr" and "process_node fast n fr = Inr fr'"
  shows "\<not> new_input_sharding_spec_bound fr'"
proof (cases "op n")
  case (CallModule k)
  then show ?thesis
    using assms elementwise_loop_keeps
    by (cases k) (auto simp: handler_def elementwise_def split: if_splits)
next
  case (CallFunction k)
  then show ?thesis
    using assms elementwise_loop_keeps getitem_loop_keeps var_mean_loop_keeps
    by (cases k)
      (auto simp: handler_def elementwise_def var_mean_def getitem_def
        split: if_splits list.splits)
qed (use assms in \<open>auto simp: replica_def split: if_splits\<close>)

lemma build_loop_keeps:
  "\<not> new_input_sharding_spec_bound fr \<Longrightarrow> build_loop fast ns fr = Inr fr' \<Longrightarrow>
     \<not> new_input_sharding_spec_bound fr'"
proof (induction ns arbitrary: fr)
  case Nil
  then show ?case by simp
next
  case (Cons n ns)
  then obtain fr1 where p: "process_node fast n fr = Inr fr1"
    and b: "build_loop fast ns fr1 = Inr fr'"
    by (auto split: sum.splits)
  show ?case using Cons.IH[OF process_node_keeps[OF Cons.prems(1) p] b] .
qed

lemma build_loop_append:
  "build_loop fast (xs @ ys) fr =
     (case build_loop fast xs fr of Inl e \<Rightarrow> Inl e | Inr fr' \<Rightarrow> build_loop fast ys fr')"
  by (induction xs arbitrary: fr) (auto split: sum.splits)

lemma var_mean_node_raises:
  assumes "op n = CallFunction VarMean" and "predecessors n = (s # ss) # ps"
    and "\<not> new_input_sharding_spec_bound fr"
  shows "process_node fast n fr =
    Inl (if \<not> has_dim_kwarg n then KeyError
         else if is_sharding_spec s then NameError else AssertionError)"
  using assms by (simp add: var_mean_def)

text \<open>
  Claim C10, amended. For a \<open>call_function\<close> node whose target is \<open>torch.var_mean\<close> and
  whose first predecessor carries at least one strategy, \<open>build_strategies_and_cost\<close>
  never returns normally; and when the loop reaches the node, its keyword arguments hold
  \<open>dim\<close> and the first strategy's output is a \<open>ShardingSpec\<close>, the exception is the
  \<open>NameError\<close> of reading \<open>new_input_sharding_spec\<close> before any assignment to it.
\<close>

theorem var_mean_never_completes:
  assumes "op n = CallFunction VarMean" and "predecessors n = (s # ss) # ps"
  shows "(\<exists>e. build_strategies_and_cost fast (pre @ n # post) = Inl e) \<and>
         ((\<exists>fr. build_loop fast pre empty_frame = Inr fr) \<and> has_dim_kwarg n \<and> is_sharding_spec s
            \<longrightarrow> build_strategies_and_cost fast (pre @ n # post) = Inl NameError)"
proof (cases "build_loop fast pre empty_frame")
  case (Inl e)
  then show ?thesis by (simp add: build_strategies_and_cost_def build_loop_append)
next
  case (Inr fr)
  have "\<not> new_input_sharding_spec_bound empty_frame" by (simp add: empty_frame_def)
  then have u: "\<not> new_input_sharding_spec_bound fr" using Inr by (rule build_loop_keeps)
  show ?thesis
    using Inr var_mean_node_raises[OF assms u, of fast]
    by (simp add: build_strategies_and_cost_def build_loop_append)
qed

theorem var_mean_never_completes_witness:
  "op var_mean_node = CallFunction VarMean \<and>
   predecessors var_mean_node = (strategy0 # []) # [] \<and>
   build_loop True [placeholder_node] empty_frame =
     Inr \<lparr>name_bound = True, output_sharding_spec_bound = True,
          new_input_sharding_spec_bound = False\<rparr> \<and>
   has_dim_kwarg var_mean_node \<and> is_sharding_spec strategy0 \<and>
   build_strategies_and_cost True ([placeholder_node] @ var_mean_node # []) = Inl NameError"
proof -
  have h: "op var_mean_node = CallFunction VarMean"
    "predecessors var_mean_node = (strategy0 # []) # []"
    by (simp_all add: var_mean_node_def)
  have p: "build_loop True [placeholder_node] empty_frame =
     Inr \<lparr>name_bound = True, output_sharding_spec_bound = True,
          new_input_sharding_spec_bound = False\<rparr>"
    by (simp add: placeholder_node_def empty_frame_def replica_def)
  have k: "has_dim_kwarg var_mean_node" "is_sharding_spec strategy0"
    by (simp_all add: var_mean_node_def strategy0_def)
  show ?thesis
    using var_mean_never_completes[OF h, of True "[placeholder_node]" "[]"] h p k by simp
qed

theorem var_mean_positional_dim_raises_KeyError:
  "op var_mean_positional = CallFunction VarMean \<and>
   predecessors var_mean_positional = [[strategy0]] \<and>
   build_strategies_and_cost True [placeholder_node, var_mean_positional] = Inl KeyError \<and>
   build_strategies_and_cost True [placeholder_node, var_mean_positional] \<noteq> Inl NameError"
  by (simp add: build_strategies_and_cost_def var_mean_positional_def placeholder_node_def
      empty_frame_def replica_def var_mean_def)

end
